theory Spec2Isabelle
  imports Complex_Main "HOL-Library.Log_Nat"
begin

section \<open>The report generator of \<^verbatim>\<open>app.py\<close>\<close>

text \<open>
  The script is a Streamlit form. Every user action reruns it from the top against the
  session state; the two button handlers and the two image functions are modelled here,
  each as a function of the values it reads, returning the values it writes.

  Python \<^verbatim>\<open>str\<close> values are \<open>string\<close>s: a character is its code point, and the
  model covers the code points below 256 (the range of \<open>char\<close>).
\<close>

subsection \<open>Constants\<close>

text \<open>
  The en dash (U+2013) of \<^verbatim>\<open>FOOTER_TEXT\<close> lies outside \<open>char\<close>; it is written as
  the three bytes of its UTF-8 encoding. The constant is only handed to the font backend.
\<close>

definition FOOTER_TEXT :: string where
  "FOOTER_TEXT = ''Confidential '' @ [char_of (226::nat), char_of (128::nat), char_of (147::nat)]
     @ '' Internal Use Only''"

definition COVER_WIDTH :: int where
  "COVER_WIDTH = 1020"

definition COVER_HEIGHT :: int where
  "COVER_HEIGHT = 850"

definition CATEGORIES :: "string list" where
  "CATEGORIES =
    [''Outer Carton Packaging'',
     ''Box Labels'',
     ''Internal Packaging and Accessories'',
     ''Chassis View'',
     ''Composite Labels'',
     ''Internal Configuration'',
     ''CPU'',
     ''DIMM'',
     ''Drives'',
     ''Fan'',
     ''Adapter or IO Card'',
     ''PSU'',
     ''Internal Wiring'']"


subsection \<open>Images and the object store\<close>

text \<open>
  A font is what \<^verbatim>\<open>load_font\<close> returns: Arial at the requested size, or the library's
  built-in font when the file cannot be opened.
\<close>

datatype font = TrueType string nat | DefaultFont

text \<open>
  The pixels of an image are kept as the history of the library operations that produced
  them, starting from the decoded data of an upload (\<open>Decoded\<close>, identified by a number).
  Two images with the same history have the same pixels.
\<close>

datatype transpose_method =
  FLIP_LEFT_RIGHT | FLIP_TOP_BOTTOM | ROTATE_90 | ROTATE_180 | ROTATE_270 | TRANSPOSE | TRANSVERSE

datatype raster =
    Decoded nat
  | Transposed transpose_method raster
  | Resampled int int raster
  | Converted string raster
  | Solid string
  | Pasted raster raster int int
  | Inked raster int int string string font "string option"

record pil_image =
  width :: int
  height :: int
  mode :: string
  orientation :: "nat option"
  pixels :: raster

text \<open>
  Image objects live in a store; a reference is an index into it. Allocation appends, so
  references handed out earlier stay valid.
\<close>

type_synonym ref = nat
type_synonym heap = "pil_image list"

subsection \<open>Session state\<close>

text \<open>
  A draft entry is the dictionary \<^verbatim>\<open>{"include": ..., "image": ..., "label": ...}\<close>. The
  field names \<^verbatim>\<open>include\<close> and \<^verbatim>\<open>image\<close> are taken in Isabelle, hence \<open>incl\<close> and \<open>img\<close>.
\<close>

record entry =
  incl :: bool
  img :: ref
  label :: string

text \<open>
  \<^verbatim>\<open>st.session_state\<close>: one list of \<^verbatim>\<open>MAX_PHOTOS\<close> slots per category (\<open>None\<close> for
  an empty slot), the draft and the flag that shows the draft editor.
\<close>

record session =
  photos :: "string \<Rightarrow> ref option list"
  draft :: "entry list"
  preview_ready :: bool

text \<open>
  A handler either runs to its end, or shows a message with \<^verbatim>\<open>st.error\<close> and halts the
  script with \<^verbatim>\<open>st.stop()\<close>, or an exception of a library call escapes.
\<close>

datatype exn = ValueError

datatype 'a outcome = Done 'a | Stopped string | Raised exn

subsection \<open>The handler of "Preview Final Draft"\<close>

text \<open>
  \<^verbatim>\<open>for img in st.session_state[cat]: if img: draft.append(...)\<close>. An image object is
  truthy, \<^verbatim>\<open>None\<close> is not.
\<close>

fun append_slots :: "string \<Rightarrow> ref option list \<Rightarrow> entry list \<Rightarrow> entry list" where
  "append_slots cat [] d = d"
| "append_slots cat (None # slots) d = append_slots cat slots d"
| "append_slots cat (Some i # slots) d =
     append_slots cat slots (d @ [\<lparr>incl = True, img = i, label = cat\<rparr>])"

fun append_categories :: "(string \<Rightarrow> ref option list) \<Rightarrow> string list \<Rightarrow> entry list \<Rightarrow> entry list" where
  "append_categories ph [] d = d"
| "append_categories ph (cat # cats) d = append_categories ph cats (append_slots cat (ph cat) d)"

definition preview_final_draft :: "session \<Rightarrow> unit outcome \<times> session" where
  "preview_final_draft s =
     (let d = append_categories (photos s) CATEGORIES [] in
      if d = [] then (Stopped ''Please take/upload at least one photo.'', s)
      else (Done (), s\<lparr>draft := d, preview_ready := True\<rparr>))"










definition no_photo :: session where
  "no_photo = \<lparr>photos = (\<lambda>cat. [None, None, None, None, None]),
                 draft = [\<lparr>incl = False, img = 3, label = ''kept''\<rparr>], preview_ready = True\<rparr>"

subsection \<open>The imaging library\<close>

text \<open>
  Pillow is not part of the repository. Its operations are modelled by what they do to an
  image's size, mode, orientation tag and pixel history. What depends on font files and on
  the platform is a parameter: whether Arial can be opened, the text measurements
  (\<^verbatim>\<open>textbbox\<close>, \<^verbatim>\<open>textlength\<close>, each for the drawing context's font mode) and the
  formatting of dates. \<^verbatim>\<open>textlength\<close> returns a float; text advances are multiples of
  1/64 far below \<open>2^53\<close>, on which the subtraction from the image width and the floor
  division by 2 are exact, so they are modelled on \<open>rat\<close>.
\<close>

record date =
  year :: nat
  month :: nat
  day :: nat

record backend =
  arial_available :: bool
  textbbox :: "string \<Rightarrow> int \<times> int \<Rightarrow> string \<Rightarrow> font \<Rightarrow> int \<times> int \<times> int \<times> int"
  textlength :: "string \<Rightarrow> string \<Rightarrow> font \<Rightarrow> rat"
  strftime :: "date \<Rightarrow> string \<Rightarrow> string"

text \<open>\<^verbatim>\<open>load_font\<close>: Arial, or the built-in font when opening it fails.\<close>

definition load_font :: "backend \<Rightarrow> nat \<Rightarrow> font" where
  "load_font be sz = (if arial_available be then TrueType ''arial.ttf'' sz else DefaultFont)"

text \<open>
  \<^verbatim>\<open>img.copy()\<close> and \<^verbatim>\<open>Image.new\<close> allocate; \<^verbatim>\<open>paste\<close> and the \<^verbatim>\<open>text\<close> method of a
  drawing context write into the object they are called on and into no other.
\<close>

definition Image_copy :: "heap \<Rightarrow> ref \<Rightarrow> ref \<times> heap" where
  "Image_copy h r = (length h, h @ [h ! r])"

definition Image_new :: "heap \<Rightarrow> string \<Rightarrow> int \<times> int \<Rightarrow> string \<Rightarrow> ref \<times> heap" where
  "Image_new h m sz colour =
     (length h, h @ [\<lparr>width = fst sz, height = snd sz, mode = m, orientation = None,
                       pixels = Solid colour\<rparr>])"

definition paste :: "heap \<Rightarrow> ref \<Rightarrow> ref \<Rightarrow> int \<times> int \<Rightarrow> heap" where
  "paste h dst src xy =
     h[dst := (h ! dst)\<lparr>pixels := Pasted (pixels (h ! dst)) (pixels (h ! src)) (fst xy) (snd xy)\<rparr>]"

text \<open>
  \<^verbatim>\<open>ImageDraw.Draw(im)\<close> draws on \<open>im\<close>; its font mode is "1" for the modes 1, P, I and F,
  and "L" otherwise.
\<close>

record draw =
  target :: ref
  fontmode :: string

definition Draw :: "heap \<Rightarrow> ref \<Rightarrow> draw" where
  "Draw h r = \<lparr>target = r,
              fontmode = (if mode (h ! r) \<in> set [''1'', ''P'', ''I'', ''F''] then ''1'' else ''L'')\<rparr>"

definition draw_text :: "heap \<Rightarrow> draw \<Rightarrow> int \<times> int \<Rightarrow> string \<Rightarrow> string \<Rightarrow> font \<Rightarrow> string option \<Rightarrow> heap" where
  "draw_text h d xy s fill f anchor =
     h[target d := (h ! target d)\<lparr>pixels := Inked (pixels (h ! target d)) (fst xy) (snd xy) s fill f anchor\<rparr>]"

text \<open>Components 1 and 3 of a bounding box \<open>(left, top, right, bottom)\<close>.\<close>

fun bbox1 :: "int \<times> int \<times> int \<times> int \<Rightarrow> int" where
  "bbox1 (x0, y0, x1, y1) = y0"

fun bbox3 :: "int \<times> int \<times> int \<times> int \<Rightarrow> int" where
  "bbox3 (x0, y0, x1, y1) = y1"

subsection \<open>Floating point\<close>

text \<open>
  A Python float is an IEEE double. The finite non-negative ones are modelled exactly:
  \<open>Dbl m e\<close> is the number \<open>m * 2^e\<close>, and an operation returns the double nearest to its
  exact result, a tie going to the even mantissa. Exponent limits are left out: image
  sizes stay below \<open>2^31\<close>, far inside the normal range.
\<close>

datatype double = Dbl int int

text \<open>\<open>round_half_even n d\<close>: the integer nearest to \<open>n / d\<close>, a tie going to the even one.\<close>

definition round_half_even :: "int \<Rightarrow> int \<Rightarrow> int" where
  "round_half_even n d =
     (let q = n div d; r = n mod d in
      if 2 * r < d then q
      else if 2 * r > d then q + 1
      else if even q then q else q + 1)"

text \<open>
  The double nearest to \<open>n / d\<close>, for \<open>n \<ge> 0\<close> and \<open>d > 0\<close>: the exponent \<open>e\<close> that puts
  \<open>n / (d * 2^e)\<close> between \<open>2^52\<close> and \<open>2^53\<close>, and the quotient rounded there.
\<close>

definition nearest_double :: "int \<Rightarrow> int \<Rightarrow> double" where
  "nearest_double n d =
     (if n = 0 then Dbl 0 0
      else
        (let e0 = bitlen n - bitlen d - 53;
             e = (if n * 2 ^ nat (- e0) \<ge> d * 2 ^ nat e0 * 2 ^ 53 then e0 + 1 else e0)
         in Dbl (round_half_even (n * 2 ^ nat (- e)) (d * 2 ^ nat e)) e))"

text \<open>
  \<^verbatim>\<open>a / b\<close> on two integers is correctly rounded. \<^verbatim>\<open>w * x\<close> with an integer \<open>w\<close> below
  \<open>2^53\<close> converts \<open>w\<close> exactly and rounds the product. \<^verbatim>\<open>int(x)\<close> truncates.
\<close>

definition truediv :: "int \<Rightarrow> int \<Rightarrow> double" where
  "truediv a b = nearest_double a b"

fun mul_int :: "int \<Rightarrow> double \<Rightarrow> double" where
  "mul_int w (Dbl m e) = (case nearest_double (w * m) 1 of Dbl m' e' \<Rightarrow> Dbl m' (e' + e))"

fun trunc :: "double \<Rightarrow> int" where
  "trunc (Dbl m e) = m * 2 ^ nat e div 2 ^ nat (- e)"

text \<open>The number a double stands for.\<close>

fun dval :: "double \<Rightarrow> real" where
  "dval (Dbl m e) = of_int m * 2 powr (of_int e)"

subsection \<open>\<^verbatim>\<open>optimize_image\<close>\<close>

text \<open>
  The three library calls, on image values: none of them writes into its argument.
  \<^verbatim>\<open>ImageOps.exif_transpose\<close> reads the orientation tag (1 when absent), and for the
  values 2 to 8 returns the transposed image without the tag, otherwise a copy.
  \<^verbatim>\<open>resize\<close> returns a copy when the size is the image's own and raises
  \<^verbatim>\<open>ValueError\<close> for a width or height below 1. \<^verbatim>\<open>convert\<close> to the image's own mode
  returns a copy.
\<close>

definition orientation_method :: "nat \<Rightarrow> transpose_method option" where
  "orientation_method n =
     (if n = 2 then Some FLIP_LEFT_RIGHT
      else if n = 3 then Some ROTATE_180
      else if n = 4 then Some FLIP_TOP_BOTTOM
      else if n = 5 then Some TRANSPOSE
      else if n = 6 then Some ROTATE_270
      else if n = 7 then Some TRANSVERSE
      else if n = 8 then Some ROTATE_90
      else None)"

definition Image_transpose :: "pil_image \<Rightarrow> transpose_method \<Rightarrow> pil_image" where
  "Image_transpose im method =
     (if method \<in> set [ROTATE_90, ROTATE_270, TRANSPOSE, TRANSVERSE]
      then im\<lparr>width := height im, height := width im, pixels := Transposed method (pixels im)\<rparr>
      else im\<lparr>pixels := Transposed method (pixels im)\<rparr>)"

definition exif_transpose :: "pil_image \<Rightarrow> pil_image" where
  "exif_transpose im =
     (case orientation_method (case orientation im of None \<Rightarrow> 1 | Some n \<Rightarrow> n) of
        None \<Rightarrow> im
      | Some method \<Rightarrow> (Image_transpose im method)\<lparr>orientation := None\<rparr>)"

definition Image_resize :: "pil_image \<Rightarrow> int \<times> int \<Rightarrow> exn + pil_image" where
  "Image_resize im sz =
     (if sz = (width im, height im) then Inr im
      else if fst sz < 1 \<or> snd sz < 1 then Inl ValueError
      else Inr (im\<lparr>width := fst sz, height := snd sz,
                   pixels := Resampled (fst sz) (snd sz) (pixels im)\<rparr>))"

definition Image_convert :: "pil_image \<Rightarrow> string \<Rightarrow> pil_image" where
  "Image_convert im m =
     (if m = mode im then im else im\<lparr>mode := m, pixels := Converted m (pixels im)\<rparr>)"

text \<open>
  \<^verbatim>\<open>optimize_image(img, max_size=3000, quality=95)\<close>; the script calls it with the
  defaults.
\<close>

definition optimize_image :: "pil_image \<Rightarrow> int \<Rightarrow> nat \<Rightarrow> exn + pil_image \<times> nat" where
  "optimize_image img0 max_size quality =
     (let img = exif_transpose img0;
          w = width img;
          h = height img;
          long_edge = max w h
      in if long_edge > max_size
         then (let scale = truediv max_size long_edge
               in case Image_resize img (trunc (mul_int w scale), trunc (mul_int h scale)) of
                    Inl e \<Rightarrow> Inl e
                  | Inr img \<Rightarrow> Inr (Image_convert img ''RGB'', quality))
         else Inr (Image_convert img ''RGB'', quality))"

text \<open>
  The size of an image once its orientation tag is applied: the tags 5 to 8 turn the image
  by a quarter, so width and height change places.
\<close>

definition oriented_size :: "pil_image \<Rightarrow> int \<times> int" where
  "oriented_size im =
     (if orientation im \<in> set [Some 5, Some 6, Some 7, Some 8]
      then (height im, width im) else (width im, height im))"

text \<open>
  Sample uploads: one whose longer edge is 4177, and one of 6001 by 1.
\<close>

definition wide :: pil_image where
  "wide = \<lparr>width = 4177, height = 3000, mode = ''RGB'', orientation = None, pixels = Decoded 2\<rparr>"

definition thin :: pil_image where
  "thin = \<lparr>width = 6001, height = 1, mode = ''RGB'', orientation = None, pixels = Decoded 1\<rparr>"

subsection \<open>\<^verbatim>\<open>render_image\<close>\<close>

text \<open>
  \<^verbatim>\<open>d.textlength\<close> raises \<^verbatim>\<open>ValueError\<close> for a text with a line break; otherwise it is
  the backend's measurement.
\<close>

definition ImageDraw_textlength :: "backend \<Rightarrow> string \<Rightarrow> string \<Rightarrow> font \<Rightarrow> exn + rat" where
  "ImageDraw_textlength be fm s f =
     (if CHR 0x0A \<in> set s then Inl ValueError else Inr (textlength be fm s f))"

text \<open>
  The function returns the canvas, or raises at one of the two calls of
  \<^verbatim>\<open>d.textlength\<close> (lines 129 and 131); either way the store is the one it leaves behind.
\<close>

definition render_image :: "backend \<Rightarrow> heap \<Rightarrow> ref \<Rightarrow> string \<Rightarrow> (exn + ref) \<times> heap" where
  "render_image be h0 img0 lbl =
     (let (img, h1) = Image_copy h0 img0;
          draw = Draw h1 img;
          label_font = load_font be 32;
          footer_font = load_font be 20;
          padding = 20;
          footer_gap = 10;
          label_bbox = textbbox be (fontmode draw) (0, 0) lbl label_font;
          label_h = bbox3 label_bbox - bbox1 label_bbox;
          footer_bbox = textbbox be (fontmode draw) (0, 0) FOOTER_TEXT footer_font;
          footer_h = bbox3 footer_bbox - bbox1 footer_bbox;
          bar_h = label_h + footer_h + padding * 2 + footer_gap;
          (canvas, h2) = Image_new h1 ''RGB'' (width (h1 ! img), height (h1 ! img) + bar_h) ''white'';
          h3 = paste h2 canvas img (0, 0);
          d = Draw h3 canvas
      in case ImageDraw_textlength be (fontmode d) lbl label_font of
           Inl e \<Rightarrow> (Inl e, h3)
         | Inr lw \<Rightarrow>
             (let h4 = draw_text h3 d (\<lfloor>(of_int (width (h3 ! img)) - lw) / 2\<rfloor>,
                                       height (h3 ! img) + padding)
                         lbl ''black'' label_font None
              in case ImageDraw_textlength be (fontmode d) FOOTER_TEXT footer_font of
                   Inl e \<Rightarrow> (Inl e, h4)
                 | Inr fw \<Rightarrow>
                     (let h5 = draw_text h4 d (\<lfloor>(of_int (width (h4 ! img)) - fw) / 2\<rfloor>,
                                     height (h4 ! img) + padding + label_h + footer_gap)
                                 FOOTER_TEXT ''gray'' footer_font None
                      in (Inr canvas, h5))))"

text \<open>The canvas a call returns, read from the store the call leaves.\<close>

definition rendered :: "backend \<Rightarrow> heap \<Rightarrow> ref \<Rightarrow> string \<Rightarrow> exn + pil_image" where
  "rendered be h r lbl =
     (case render_image be h r lbl of
        (Inl e, h') \<Rightarrow> Inl e
      | (Inr canvas, h') \<Rightarrow> Inr (h' ! canvas))"

text \<open>
  The bar height in the words of the claims: label text height plus footer text height
  plus twice the padding plus the gap, measured in font mode "L".
\<close>

definition text_height :: "backend \<Rightarrow> string \<Rightarrow> nat \<Rightarrow> int" where
  "text_height be s sz =
     bbox3 (textbbox be ''L'' (0, 0) s (load_font be sz)) - bbox1 (textbbox be ''L'' (0, 0) s (load_font be sz))"

definition bar_height :: "backend \<Rightarrow> string \<Rightarrow> int" where
  "bar_height be lbl = text_height be lbl 32 + text_height be FOOTER_TEXT 20 + 2 * 20 + 10"

text \<open>
  The captioned rendering of an image in the words of the claims: a white RGB canvas of
  the image's width and of its height plus the bar, the image pasted at the top left, the
  label in black centred at \<open>padding\<close> below the image, the footer in gray centred below
  the label.
\<close>

definition captioned :: "backend \<Rightarrow> pil_image \<Rightarrow> string \<Rightarrow> pil_image" where
  "captioned be im lbl =
     \<lparr>width = width im,
      height = height im + bar_height be lbl,
      mode = ''RGB'',
      orientation = None,
      pixels =
        Inked
          (Inked (Pasted (Solid ''white'') (pixels im) 0 0)
             \<lfloor>(of_int (width im) - textlength be ''L'' lbl (load_font be 32)) / 2\<rfloor>
             (height im + 20) lbl ''black'' (load_font be 32) None)
          \<lfloor>(of_int (width im) - textlength be ''L'' FOOTER_TEXT (load_font be 20)) / 2\<rfloor>
          (height im + 20 + text_height be lbl 32 + 10)
          FOOTER_TEXT ''gray'' (load_font be 20) None\<rparr>"

text \<open>
  A sample backend (a fixed-pitch bitmap font, six pixels a character) and a sample
  prepared photo.
\<close>

definition bitmap_backend :: backend where
  "bitmap_backend = \<lparr>arial_available = False,
      textbbox = (\<lambda>fm xy s f. (fst xy, snd xy + 3, fst xy + 6 * int (length s), snd xy + 11)),
      textlength = (\<lambda>fm s f. 6 * of_nat (length s)),
      strftime = (\<lambda>d fmt. ''04 Nov 2026'')\<rparr>"

definition photo :: pil_image where
  "photo = \<lparr>width = 40, height = 30, mode = ''RGB'', orientation = None, pixels = Decoded 0\<rparr>"

subsection \<open>\<^verbatim>\<open>textwrap.wrap\<close>\<close>

text \<open>
  The standard library's \<^verbatim>\<open>TextWrapper\<close> with its default options, as the cover page
  calls it: tabs expanded to multiples of 8, whitespace turned into spaces, the text split
  into chunks (runs of whitespace, runs of hyphens between words, words cut after the
  hyphens of hyphenated words), the chunks packed greedily into lines, whitespace dropped
  at both ends of a line, and a chunk longer than the width broken. The character classes
  are those of Python on the code points below 256: \<open>is_whitespace\<close> is the module's
  \<^verbatim>\<open>_whitespace\<close>, \<open>isspace\<close> is \<^verbatim>\<open>str.isspace\<close> (what \<^verbatim>\<open>strip()\<close> removes),
  \<open>is_word\<close> is the pattern \<^verbatim>\<open>\w\<close> and \<open>is_digit\<close> is \<^verbatim>\<open>\d\<close>.
\<close>

definition code :: "char \<Rightarrow> nat" where
  "code c = of_char c"

definition is_whitespace :: "char \<Rightarrow> bool" where
  "is_whitespace c = (code c \<in> {9, 10, 11, 12, 13, 32})"

definition isspace :: "char \<Rightarrow> bool" where
  "isspace c = (let n = code c in (9 \<le> n \<and> n \<le> 13) \<or> (28 \<le> n \<and> n \<le> 32) \<or> n = 133 \<or> n = 160)"

definition is_digit :: "char \<Rightarrow> bool" where
  "is_digit c = (let n = code c in 48 \<le> n \<and> n \<le> 57)"

definition is_word :: "char \<Rightarrow> bool" where
  "is_word c = (let n = code c in
     (48 \<le> n \<and> n \<le> 57) \<or> (65 \<le> n \<and> n \<le> 90) \<or> n = 95 \<or> (97 \<le> n \<and> n \<le> 122) \<or>
     n = 170 \<or> n = 178 \<or> n = 179 \<or> n = 181 \<or> n = 185 \<or> n = 186 \<or> (188 \<le> n \<and> n \<le> 190) \<or>
     (192 \<le> n \<and> n \<le> 214) \<or> (216 \<le> n \<and> n \<le> 246) \<or> 248 \<le> n)"

definition is_letter :: "char \<Rightarrow> bool" where
  "is_letter c = (is_word c \<and> \<not> is_digit c)"

definition is_word_punct :: "char \<Rightarrow> bool" where
  "is_word_punct c = (is_word c \<or> c \<in> set ''!\"'&.,?'')"

text \<open>\<^verbatim>\<open>str.expandtabs\<close>, with the column counted from the last line break.\<close>

fun expandtabs :: "nat \<Rightarrow> nat \<Rightarrow> string \<Rightarrow> string" where
  "expandtabs tabsize col [] = []"
| "expandtabs tabsize col (c # cs) =
     (if code c = 9 then
        (if tabsize > 0
         then replicate (tabsize - col mod tabsize) CHR '' '' @
              expandtabs tabsize (col + (tabsize - col mod tabsize)) cs
         else expandtabs tabsize col cs)
      else c # expandtabs tabsize (if code c = 10 \<or> code c = 13 then 0 else col + 1) cs)"

definition munge_whitespace :: "string \<Rightarrow> string" where
  "munge_whitespace text = map (\<lambda>c. if is_whitespace c then CHR '' '' else c) (expandtabs 8 0 text)"

text \<open>
  The chunk pattern \<^verbatim>\<open>wordsep_re\<close>. \<open>emdash_ahead\<close>: two or more hyphens, then a word
  character. \<open>hyphen_behind\<close> reads the text before a hyphen backwards (two letters, or
  letter, hyphen, letter); \<open>hyphen_ahead\<close> reads the text after it (a letter, an optional
  hyphen, a letter). \<open>word_extra bef cs\<close> is how far a word that has consumed the head of
  \<open>bef\<close> (the text so far, reversed) extends into \<open>cs\<close>; \<open>chunk_extra\<close> is the length of
  the chunk that starts with \<open>c\<close>, less one.
\<close>

definition emdash_ahead :: "string \<Rightarrow> bool" where
  "emdash_ahead r = (let k = length (takeWhile (\<lambda>c. c = CHR ''-'') r) in
     2 \<le> k \<and> (case drop k r of [] \<Rightarrow> False | c # _ \<Rightarrow> is_word c))"

fun hyphen_behind :: "string \<Rightarrow> bool" where
  "hyphen_behind (b0 # b1 # b2 # _) =
     (is_letter b0 \<and> (is_letter b1 \<or> (b1 = CHR ''-'' \<and> is_letter b2)))"
| "hyphen_behind [b0, b1] = (is_letter b0 \<and> is_letter b1)"
| "hyphen_behind _ = False"

fun hyphen_ahead :: "string \<Rightarrow> bool" where
  "hyphen_ahead (a0 # a1 # a2 # _) =
     (is_letter a0 \<and> (is_letter a1 \<or> (a1 = CHR ''-'' \<and> is_letter a2)))"
| "hyphen_ahead [a0, a1] = (is_letter a0 \<and> is_letter a1)"
| "hyphen_ahead _ = False"

fun word_extra :: "string \<Rightarrow> string \<Rightarrow> nat" where
  "word_extra bef [] = 0"
| "word_extra bef (c # cs) =
     (if is_whitespace c then 0
      else if c = CHR ''-'' \<and> hyphen_behind bef \<and> hyphen_ahead cs then 1
      else if (case bef of [] \<Rightarrow> False | b # _ \<Rightarrow> is_word_punct b) \<and> emdash_ahead (c # cs) then 0
      else Suc (word_extra (c # bef) cs))"

definition chunk_extra :: "string \<Rightarrow> char \<Rightarrow> string \<Rightarrow> nat" where
  "chunk_extra bef c cs =
     (if is_whitespace c then length (takeWhile is_whitespace cs)
      else if (case bef of [] \<Rightarrow> False | b # _ \<Rightarrow> is_word_punct b) \<and> emdash_ahead (c # cs)
        then length (takeWhile (\<lambda>c. c = CHR ''-'') cs)
      else word_extra (c # bef) cs)"

function split_from :: "string \<Rightarrow> string \<Rightarrow> string list" where
  "split_from bef [] = []"
| "split_from bef (c # cs) =
     (let n = chunk_extra bef c cs in
      (c # take n cs) # split_from (rev (take n cs) @ c # bef) (drop n cs))"
  by pat_completeness auto
termination
  by (relation "measure (\<lambda>(bef, text). length text)") auto

definition split_chunks :: "string \<Rightarrow> string list" where
  "split_chunks text = split_from [] (munge_whitespace text)"

text \<open>\<^verbatim>\<open>chunk.strip() == ''\<close>.\<close>

definition blank :: "string \<Rightarrow> bool" where
  "blank chunk = list_all isspace chunk"

text \<open>
  \<^verbatim>\<open>_wrap_chunks\<close>, reading the chunks front to back where the library pops them off a
  reversed list. \<open>take_fitting\<close> is the inner loop, \<open>fill_line\<close> one round of the outer.
\<close>

fun take_fitting :: "nat \<Rightarrow> nat \<Rightarrow> string list \<Rightarrow> string list \<times> nat \<times> string list" where
  "take_fitting wid cur_len [] = ([], cur_len, [])"
| "take_fitting wid cur_len (c # chunks) =
     (if cur_len + length c \<le> wid
      then (case take_fitting wid (cur_len + length c) chunks of
              (cur_line, n, rest) \<Rightarrow> (c # cur_line, n, rest))
      else ([], cur_len, c # chunks))"

definition rfind_hyphen :: "string \<Rightarrow> nat \<Rightarrow> int" where
  "rfind_hyphen chunk stop =
     (case filter (\<lambda>i. chunk ! i = CHR ''-'') (rev [0..<min stop (length chunk)]) of
        [] \<Rightarrow> - 1
      | i # _ \<Rightarrow> int i)"

definition handle_long_word :: "string \<Rightarrow> nat \<Rightarrow> nat \<Rightarrow> string \<times> string" where
  "handle_long_word chunk cur_len wid =
     (let space_left = (if wid < 1 then 1 else wid - cur_len);
          hyphen = rfind_hyphen chunk space_left;
          end = (if length chunk > space_left \<and> hyphen > 0 \<and>
                    list_ex (\<lambda>c. c \<noteq> CHR ''-'') (take (nat hyphen) chunk)
                 then nat hyphen + 1 else space_left)
      in (take end chunk, drop end chunk))"

definition fill_line :: "nat \<Rightarrow> bool \<Rightarrow> string list \<Rightarrow> string list \<times> string list" where
  "fill_line wid started chunks =
     (let chunks1 = (if blank (hd chunks) \<and> started then tl chunks else chunks);
          (cur_line, cur_len, chunks2) = take_fitting wid 0 chunks1;
          (cur_line2, chunks3) =
             (case chunks2 of
                [] \<Rightarrow> (cur_line, chunks2)
              | c # rest \<Rightarrow>
                  if length c > wid
                  then (let (piece, remainder) = handle_long_word c cur_len wid
                        in (cur_line @ [piece], remainder # rest))
                  else (cur_line, chunks2));
          cur_line3 = (if cur_line2 \<noteq> [] \<and> blank (last cur_line2) then butlast cur_line2 else cur_line2)
      in (cur_line3, chunks3))"



function wrap_chunks :: "nat \<Rightarrow> string list \<Rightarrow> string list \<Rightarrow> string list" where
  "wrap_chunks wid lines chunks =
     (if chunks = [] then lines
      else (let (cur_line, rest) = fill_line wid (lines \<noteq> []) chunks
            in wrap_chunks wid (if cur_line \<noteq> [] then lines @ [concat cur_line] else lines) rest))"
  by pat_completeness auto
termination
proof (relation "measure (\<lambda>(wid, lines, chunks). sum_list (map (\<lambda>c. Suc (length c)) chunks))")
  show "wf (measure (\<lambda>(wid, lines, chunks). sum_list (map (\<lambda>c. Suc (length c)) chunks)))"
    by simp
next
  fix wid :: nat and lines chunks :: "string list" and x :: "string list \<times> string list"
    and cur_line rest :: "string list"
  assume ne: "chunks \<noteq> []" and x: "x = fill_line wid (lines \<noteq> []) chunks" and p: "(cur_line, rest) = x"
  let ?w = "\<lambda>cs. sum_list (map (\<lambda>c. Suc (length c)) cs)"
  have fit: "(l = [] \<longrightarrow> r = cs \<and> m = n \<and> (\<forall>c cs'. cs = c # cs' \<longrightarrow> wid < n + length c)) \<and>
             (l \<noteq> [] \<longrightarrow> ?w r < ?w cs)"
    if "take_fitting wid n cs = (l, m, r)" for n cs l m r
    using that
  proof (induction wid n cs arbitrary: l m r rule: take_fitting.induct)
    case (1 wid cur_len)
    then show ?case by simp
  next
    case (2 wid cur_len c chunks)
    show ?case
    proof (cases "cur_len + length c \<le> wid")
      case True
      obtain l' m' r' where t: "take_fitting wid (cur_len + length c) chunks = (l', m', r')"
        by (cases "take_fitting wid (cur_len + length c) chunks") auto
      from "2.IH" [OF True t] have "?w r' \<le> ?w chunks"
        by (cases "l' = []") auto
      with "2.prems" True t show ?thesis by auto
    next
      case False
      with "2.prems" show ?thesis by auto
    qed
  qed
  define started where "started = (lines \<noteq> [])"
  define chunks1 where "chunks1 = (if blank (hd chunks) \<and> started then tl chunks else chunks)"
  obtain line1 cur_len chunks2 where t: "take_fitting wid 0 chunks1 = (line1, cur_len, chunks2)"
    by (cases "take_fitting wid 0 chunks1") auto
  define chunks3 where "chunks3 =
     (case chunks2 of [] \<Rightarrow> chunks2
      | c # cs \<Rightarrow> if length c > wid then snd (handle_long_word c cur_len wid) # cs else chunks2)"
  have rest: "rest = chunks3"
    using t x p unfolding fill_line_def started_def [symmetric] chunks1_def [symmetric] chunks3_def
    by (auto simp: Let_def split: list.splits prod.splits)
  have le2: "?w chunks2 \<le> ?w chunks1"
    using fit [OF t] by (cases "line1 = []") auto
  have le3: "?w chunks3 \<le> ?w chunks2"
    unfolding chunks3_def by (auto simp: handle_long_word_def Let_def split: list.splits)
  have "?w chunks3 < ?w chunks"
  proof (cases "chunks1 = chunks")
    case False
    then have "?w chunks1 < ?w chunks"
      using ne unfolding chunks1_def by (cases chunks) (auto split: if_splits)
    with le2 le3 show ?thesis by simp
  next
    case same: True
    show ?thesis
    proof (cases "line1 = []")
      case False
      with fit [OF t] same le3 show ?thesis by simp
    next
      case True
      with fit [OF t] same
      have c2: "chunks2 = chunks" and n0: "cur_len = 0"
        and long: "\<forall>c cs. chunks = c # cs \<longrightarrow> wid < length c"
        by auto
      obtain c cs where cs: "chunks = c # cs" using ne by (cases chunks) auto
      with long have wl: "wid < length c" by simp
      have "1 \<le> (if wid < 1 then 1 else wid - cur_len)" using n0 by simp
      then have "length (snd (handle_long_word c cur_len wid)) < length c"
        using wl by (auto simp: handle_long_word_def Let_def)
      then show ?thesis
        using c2 cs wl unfolding chunks3_def by simp
    qed
  qed
  with rest show "((wid, if cur_line \<noteq> [] then lines @ [concat cur_line] else lines, rest), wid, lines, chunks)
      \<in> measure (\<lambda>(wid, lines, chunks). sum_list (map (\<lambda>c. Suc (length c)) chunks))"
    by simp
qed

text \<open>\<^verbatim>\<open>textwrap.wrap(text, width)\<close>; a width that is not positive raises.\<close>

definition wrap :: "string \<Rightarrow> int \<Rightarrow> exn + string list" where
  "wrap text wid =
     (if wid \<le> 0 then Inl ValueError
      else Inr (wrap_chunks (nat wid) [] (split_chunks text)))"

subsection \<open>The handler of "Convert to PDF"\<close>

text \<open>The five inputs of the report form.\<close>

record metadata =
  description :: string
  kmatx_part_number :: string
  halbX_part_number :: string
  sales_order :: string
  report_date :: date

text \<open>
  The loop over the wrapped description: each line at x = 80, the cursor 34 further down
  after every line.
\<close>

fun draw_lines :: "heap \<Rightarrow> draw \<Rightarrow> font \<Rightarrow> int \<Rightarrow> string list \<Rightarrow> heap \<times> int" where
  "draw_lines h d desc_font y [] = (h, y)"
| "draw_lines h d desc_font y (line # lines) =
     draw_lines (draw_text h d (80, y) line ''black'' desc_font None) d desc_font (y + 34) lines"

text \<open>
  The cover page (lines 217 to 242 of the script). The call of \<^verbatim>\<open>textwrap.wrap\<close> is
  the only one that can raise.
\<close>

definition cover_page :: "backend \<Rightarrow> metadata \<Rightarrow> heap \<Rightarrow> exn + ref \<times> heap" where
  "cover_page be md h0 =
     (let (cover, h1) = Image_new h0 ''RGB'' (COVER_WIDTH, COVER_HEIGHT) ''white'';
          d = Draw h1 cover;
          title_font = load_font be 56;
          field_font = load_font be 30;
          desc_font = load_font be 26;
          footer_font = load_font be 18;
          y = 90;
          h2 = draw_text h1 d (COVER_WIDTH div 2, y) ''NED FAI REPORT'' ''black'' title_font (Some ''mm'');
          y = y + 90;
          h3 = draw_text h2 d (60, y) ''Description:'' ''black'' field_font None;
          y = y + 45
      in case wrap (description md) 60 of
           Inl e \<Rightarrow> Inl e
         | Inr lines \<Rightarrow>
             (let (h4, y) = draw_lines h3 d desc_font y lines;
                  y = y + 30;
                  h5 = draw_text h4 d (60, y) (''KMATX Part Number : '' @ kmatx_part_number md)
                         ''black'' field_font None;
                  y = y + 50;
                  h6 = draw_text h5 d (60, y) (''HALBX Part Number : '' @ halbX_part_number md)
                         ''black'' field_font None;
                  y = y + 50;
                  h7 = draw_text h6 d (60, y) (''Sales Order : '' @ sales_order md)
                         ''black'' field_font None;
                  y = y + 50;
                  h8 = draw_text h7 d (60, y) (''Date : '' @ strftime be (report_date md) ''%d %b %Y'')
                         ''black'' field_font None;
                  h9 = draw_text h8 d (COVER_WIDTH div 2, COVER_HEIGHT - 35) FOOTER_TEXT
                         ''gray'' footer_font (Some ''mm'')
              in Inr (cover, h9)))"

text \<open>
  The loop over the selected entries, appending one rendered canvas per entry; an
  exception of \<^verbatim>\<open>render_image\<close> ends it.
\<close>

fun image_pages :: "backend \<Rightarrow> heap \<Rightarrow> entry list \<Rightarrow> ref list \<Rightarrow> (exn + ref list) \<times> heap" where
  "image_pages be h [] pdf_pages = (Inr pdf_pages, h)"
| "image_pages be h (item # selected) pdf_pages =
     (case render_image be h (img item) (label item) of
        (Inl e, h') \<Rightarrow> (Inl e, h')
      | (Inr canvas, h') \<Rightarrow> image_pages be h' selected (pdf_pages @ [canvas]))"

text \<open>
  What \<^verbatim>\<open>save\<close> writes: the first page followed by \<^verbatim>\<open>append_images\<close>, as images, at
  the resolution given.
\<close>

record document =
  pages :: "pil_image list"
  resolution :: nat

definition convert_to_pdf :: "backend \<Rightarrow> metadata \<Rightarrow> session \<Rightarrow> heap \<Rightarrow> document outcome \<times> heap" where
  "convert_to_pdf be md s h0 =
     (let selected = filter incl (draft s) in
      if selected = [] then (Stopped ''No images selected for PDF.'', h0)
      else
        (case cover_page be md h0 of
           Inl e \<Rightarrow> (Raised e, h0)
         | Inr (cover, h1) \<Rightarrow>
             (case image_pages be h1 selected [cover] of
                (Inl e, h2) \<Rightarrow> (Raised e, h2)
              | (Inr pdf_pages, h2) \<Rightarrow>
                  (Done \<lparr>pages = map (\<lambda>r. h2 ! r) (hd pdf_pages # tl pdf_pages), resolution = 300\<rparr>,
                   h2))))"

text \<open>The text drawn on an image, in drawing order: position and string.\<close>

fun inks :: "raster \<Rightarrow> (int \<times> int \<times> string) list" where
  "inks (Inked p x y s fill f anchor) = inks p @ [(x, y, s)]"
| "inks (Pasted p q x y) = inks p"
| "inks _ = []"

text \<open>
  Where the claims put the description: line \<open>i\<close> at x = 80 and y = \<open>y + 34 * i\<close>.
\<close>

definition description_lines :: "int \<Rightarrow> string list \<Rightarrow> (int \<times> int \<times> string) list" where
  "description_lines y lines = map (\<lambda>(i, line). (80, y + 34 * int i, line)) (enumerate 0 lines)"

text \<open>
  The cover page in the words of the claims and of the spec: a white RGB canvas of 1020
  by 850 with, in this order, the centred title, the heading, the wrapped lines of the
  description, the four fields 50 apart and the centred footer. \<open>inked\<close> draws a list of
  texts, each with its position, fill, font and anchor.
\<close>

fun inked :: "raster \<Rightarrow> (int \<times> int \<times> string \<times> string \<times> font \<times> string option) list \<Rightarrow> raster" where
  "inked p [] = p"
| "inked p ((x, y, s, fill, f, anchor) # more_texts) = inked (Inked p x y s fill f anchor) more_texts"

definition cover_canvas :: "backend \<Rightarrow> metadata \<Rightarrow> string list \<Rightarrow> pil_image" where
  "cover_canvas be md lines =
     \<lparr>width = 1020, height = 850, mode = ''RGB'', orientation = None,
      pixels = inked (Solid ''white'')
        ([(510, 90, ''NED FAI REPORT'', ''black'', load_font be 56, Some ''mm''),
          (60, 180, ''Description:'', ''black'', load_font be 30, None)]
         @ map (\<lambda>(i, line). (80, 225 + 34 * int i, line, ''black'', load_font be 26, None))
             (enumerate 0 lines)
         @ [(60, 255 + 34 * int (length lines), ''KMATX Part Number : '' @ kmatx_part_number md,
               ''black'', load_font be 30, None),
            (60, 305 + 34 * int (length lines), ''HALBX Part Number : '' @ halbX_part_number md,
               ''black'', load_font be 30, None),
            (60, 355 + 34 * int (length lines), ''Sales Order : '' @ sales_order md,
               ''black'', load_font be 30, None),
            (60, 405 + 34 * int (length lines),
               ''Date : '' @ strftime be (report_date md) ''%d %b %Y'', ''black'', load_font be 30, None),
            (510, 815, FOOTER_TEXT, ''gray'', load_font be 18, Some ''mm'')])\<rparr>"

text \<open>A text without whitespace (in the sense of \<^verbatim>\<open>str.isspace\<close>) and without hyphens.\<close>

definition plain :: "string \<Rightarrow> bool" where
  "plain t = (\<not> list_ex (\<lambda>c. isspace c \<or> c = CHR ''-'') t)"

text \<open>
  Sample inputs: report metadata; a description of 300 characters made of seven words of
  40 letters and one of 13, separated by single spaces; a draft whose only entry has a
  label of two lines; a draft of three entries on one photo, the second one excluded.
\<close>

definition sample_metadata :: metadata where
  "sample_metadata = \<lparr>description = ''Server chassis first article'', kmatx_part_number = ''P1'',
     halbX_part_number = ''H2'', sales_order = ''SO-3'', report_date = \<lparr>year = 2026, month = 11, day = 4\<rparr>\<rparr>"

definition words300 :: string where
  "words300 = concat (replicate 7 (replicate 40 CHR ''w'' @ '' '')) @ replicate 13 CHR ''x''"

definition line_break_label :: session where
  "line_break_label = \<lparr>photos = (\<lambda>cat. [Some 0, None, None, None, None]),
     draft = [\<lparr>incl = True, img = 0, label = ''Front'' @ [CHR 0x0A] @ ''view''\<rparr>],
     preview_ready = True\<rparr>"

definition three_entries :: session where
  "three_entries = \<lparr>photos = (\<lambda>cat. [Some 0, Some 0, Some 0, None, None]),
     draft = [\<lparr>incl = True, img = 0, label = ''CPU-Front''\<rparr>,
              \<lparr>incl = False, img = 0, label = ''Fan''\<rparr>,
              \<lparr>incl = True, img = 0, label = ''PSU''\<rparr>],
     preview_ready = True\<rparr>"

section \<open>Properties\<close>

subsection \<open>Building the draft\<close>

lemma append_slots_eq:
  "append_slots cat slots d =
     d @ concat (map (\<lambda>x. case x of None \<Rightarrow> [] | Some r \<Rightarrow> [\<lparr>incl = True, img = r, label = cat\<rparr>]) slots)"
  by (induction cat slots d rule: append_slots.induct) simp_all

lemma append_categories_eq:
  "append_categories ph cats d =
     d @ concat (map (\<lambda>cat. concat (map (\<lambda>x. case x of None \<Rightarrow> []
                      | Some r \<Rightarrow> [\<lparr>incl = True, img = r, label = cat\<rparr>]) (ph cat))) cats)"
  by (induction cats arbitrary: d) (simp_all add: append_slots_eq)




lemma all_slots_empty:
  assumes "\<forall>cat\<in>set CATEGORIES. \<forall>slot\<in>set (ph cat). slot = None"
  shows "append_categories ph CATEGORIES [] = []"
  using assms unfolding append_categories_eq by (auto split: option.splits)






text \<open>
  Claim C7. When every slot of every category is empty the handler stops with the error
  message and hands back the session it was given: slots, stored draft and
  \<open>preview_ready\<close> are all as before.
\<close>

theorem preview_rejects_empty:
  assumes "\<forall>cat\<in>set CATEGORIES. \<forall>slot\<in>set (photos s cat). slot = None"
  shows "preview_final_draft s = (Stopped ''Please take/upload at least one photo.'', s)"
  using all_slots_empty [OF assms] by (simp add: preview_final_draft_def)

theorem preview_rejects_empty_witness:
  "preview_final_draft no_photo = (Stopped ''Please take/upload at least one photo.'', no_photo)
   \<and> draft no_photo = [\<lparr>incl = False, img = 3, label = ''kept''\<rparr>] \<and> preview_ready no_photo"
proof -
  have e: "\<forall>cat\<in>set CATEGORIES. \<forall>slot\<in>set (photos no_photo cat). slot = None"
    by (simp add: no_photo_def)
  show ?thesis
    using preview_rejects_empty [OF e] by (simp add: no_photo_def)
qed

subsection \<open>\<^verbatim>\<open>optimize_image\<close>\<close>

lemma pow2_split: "(2::real) ^ nat e / 2 ^ nat (- e) = 2 powr (of_int e)"
proof (cases "0 \<le> e")
  case True
  then have "(2::real) powr (of_int e) = 2 ^ nat e"
    by (simp add: powr_realpow [symmetric])
  with True show ?thesis by simp
next
  case False
  then have "(2::real) powr (of_int e) = 2 powr (- real (nat (- e)))" by simp
  also have "\<dots> = 1 / 2 ^ nat (- e)"
    by (simp add: powr_minus powr_realpow divide_simps)
  finally show ?thesis using False by simp
qed

lemma round_half_even_upper:
  assumes "0 < d"
  shows "2 * d * round_half_even n d \<le> 2 * n + d"
proof -
  define q r where "q = n div d" and "r = n mod d"
  have n: "n = q * d + r" by (simp add: q_def r_def)
  have r: "0 \<le> r" "r < d" using assms by (simp_all add: r_def)
  show ?thesis
    unfolding round_half_even_def q_def [symmetric] r_def [symmetric] Let_def
    using n r by (auto simp: algebra_simps)
qed

lemma round_half_even_real:
  assumes "0 < d"
  shows "real_of_int (round_half_even n d) \<le> of_int n / of_int d + 1 / 2"
proof -
  have "real_of_int (2 * d * round_half_even n d) \<le> real_of_int (2 * n + d)"
    using round_half_even_upper [OF assms] by (simp only: of_int_le_iff)
  then have "2 * real_of_int d * real_of_int (round_half_even n d) \<le> 2 * of_int n + of_int d"
    by simp
  then show ?thesis
    using assms by (simp add: field_simps)
qed

lemma trunc_le_dval: "real_of_int (trunc (Dbl m e)) \<le> dval (Dbl m e)"
proof -
  have "real_of_int (m * 2 ^ nat e div 2 ^ nat (- e)) \<le> real_of_int (m * 2 ^ nat e) / real_of_int (2 ^ nat (- e))"
    by (rule real_of_int_div4)
  also have "\<dots> = of_int m * ((2::real) ^ nat e / 2 ^ nat (- e))" by simp
  also have "\<dots> = dval (Dbl m e)" by (simp add: pow2_split)
  finally show ?thesis by simp
qed

lemma nearest_double_upper:
  assumes "0 < n" and "0 < d" and "nearest_double n d = Dbl m e"
  shows "dval (Dbl m e) \<le> (of_int n / of_int d) * (1 + 1 / 2 ^ 53)"
proof -
  define e0 where "e0 = bitlen n - bitlen d - 53"
  define x where "x = real_of_int n / real_of_int d"
  have xpos: "0 < x" using assms by (simp add: x_def)
  have e: "e = (if n * 2 ^ nat (- e0) \<ge> d * 2 ^ nat e0 * 2 ^ 53 then e0 + 1 else e0)"
    and m: "m = round_half_even (n * 2 ^ nat (- e)) (d * 2 ^ nat e)"
    using assms by (auto simp: nearest_double_def e0_def Let_def)
  have scaled: "real_of_int (n * 2 ^ nat (- k)) / real_of_int (d * 2 ^ nat k) = x * 2 powr (- of_int k)" for k
  proof -
    have "real_of_int (n * 2 ^ nat (- k)) / real_of_int (d * 2 ^ nat k)
        = x * ((2::real) ^ nat (- k) / 2 ^ nat (- (- k)))"
      by (simp add: x_def)
    also have "\<dots> = x * 2 powr (of_int (- k))" by (simp only: pow2_split)
    finally show ?thesis by simp
  qed
  have big: "2 ^ 52 \<le> x * 2 powr (- of_int e)"
  proof (cases "n * 2 ^ nat (- e0) \<ge> d * 2 ^ nat e0 * 2 ^ 53")
    case True
    then have "real_of_int (d * 2 ^ nat e0 * 2 ^ 53) \<le> real_of_int (n * 2 ^ nat (- e0))"
      by (simp only: of_int_le_iff)
    then have "2 ^ 53 \<le> real_of_int (n * 2 ^ nat (- e0)) / real_of_int (d * 2 ^ nat e0)"
      using assms(2) by (simp add: field_simps)
    then have y: "2 ^ 53 \<le> x * 2 powr (- of_int e0)" by (simp only: scaled)
    have "(2::real) powr (- of_int e0 - 1) = 2 powr (- of_int e0) / 2 powr 1"
      by (rule powr_diff)
    then have "x * 2 powr (- of_int (e0 + 1)) = (x * 2 powr (- of_int e0)) / 2"
      by simp
    moreover have "(2::real) ^ 52 \<le> z / 2" if "2 ^ 53 \<le> z" for z :: real
      using that by simp
    from this [OF y] have "(2::real) ^ 52 \<le> (x * 2 powr (- of_int e0)) / 2" .
    ultimately have "2 ^ 52 \<le> x * 2 powr (- of_int (e0 + 1))" by (simp only:)
    with True e show ?thesis by (simp only: if_True)
  next
    case False
    have bn: "2 ^ nat (bitlen n - 1) \<le> n" and bd: "d < 2 ^ nat (bitlen d)"
      using bitlen_bounds [OF assms(1)] bitlen_bounds [OF assms(2)] by auto
    have b1: "1 \<le> bitlen n" "1 \<le> bitlen d"
      using assms by (auto simp: bitlen_alt_def)
    have "(2::real) powr (of_int (bitlen n - 1)) = 2 ^ nat (bitlen n - 1)"
      using b1 by (simp add: powr_realpow [symmetric])
    also have "\<dots> \<le> real_of_int n"
      using bn by (metis of_int_le_iff of_int_numeral of_int_power)
    finally have n_lo: "2 powr (of_int (bitlen n - 1)) \<le> real_of_int n" .
    have "real_of_int d \<le> 2 ^ nat (bitlen d)"
      using bd by (metis less_imp_le of_int_le_iff of_int_numeral of_int_power)
    also have "\<dots> = 2 powr (of_int (bitlen d))"
      using b1 by (simp add: powr_realpow [symmetric])
    finally have d_hi: "real_of_int d \<le> 2 powr (of_int (bitlen d))" .
    have "2 powr (of_int (bitlen n - 1)) / 2 powr (of_int (bitlen d)) \<le> x"
      unfolding x_def using n_lo d_hi assms
      by (intro frac_le) auto
    then have ax: "2 powr (of_int (bitlen n - 1) - of_int (bitlen d)) \<le> x"
      by (simp add: powr_diff)
    define a p where "a = (2::real) powr (of_int (bitlen n - 1) - of_int (bitlen d))"
      and "p = (2::real) powr (- of_int e0)"
    have "a * p \<le> x * p"
      using ax unfolding a_def p_def by (intro mult_right_mono) simp_all
    moreover have "a * p = (2::real) powr 52"
      unfolding a_def p_def by (simp add: powr_add [symmetric] e0_def)
    moreover have "(2::real) powr 52 = 2 ^ 52"
      using powr_realpow [of 2 52] by simp
    ultimately have "(2::real) ^ 52 \<le> x * p" by (simp only:)
    then show ?thesis using False e unfolding p_def by (simp only: if_False)
  qed
  have dpos: "0 < d * 2 ^ nat e" using assms(2) by simp
  have "real_of_int m \<le> x * 2 powr (- of_int e) + 1 / 2"
    using round_half_even_real [OF dpos, of "n * 2 ^ nat (- e)"] m scaled [of e] by simp
  also have "\<dots> \<le> x * 2 powr (- of_int e) + x * 2 powr (- of_int e) / 2 ^ 53"
    using big by (simp add: field_simps)
  finally have "real_of_int m \<le> x * 2 powr (- of_int e) * (1 + 1 / 2 ^ 53)"
    by (simp add: algebra_simps)
  then have "real_of_int m * 2 powr (of_int e) \<le> x * 2 powr (- of_int e) * (1 + 1 / 2 ^ 53) * 2 powr (of_int e)"
    by (simp add: mult_right_mono)
  also have "\<dots> = x * (1 + 1 / 2 ^ 53) * (2 powr (- of_int e) * 2 powr (of_int e))"
    by (simp add: algebra_simps)
  also have "2 powr (- real_of_int e) * 2 powr (of_int e) = 1"
    by (simp add: powr_add [symmetric])
  finally show ?thesis by (simp add: x_def)
qed

lemma mul_int_upper:
  assumes "0 \<le> w" and "0 \<le> m" and "mul_int w (Dbl m e) = Dbl m' e'"
  shows "dval (Dbl m' e') \<le> of_int w * dval (Dbl m e) * (1 + 1 / 2 ^ 53)"
proof (cases "w * m = 0")
  case True
  then have "m' = 0" using assms(3) by (simp add: nearest_double_def)
  moreover have "0 \<le> of_int w * dval (Dbl m e) * (1 + 1 / 2 ^ 53)"
    using assms by simp
  ultimately show ?thesis by simp
next
  case False
  then have pos: "0 < w * m" using assms by (simp add: zero_less_mult_iff less_le)
  obtain m1 e1 where n: "nearest_double (w * m) 1 = Dbl m1 e1"
    by (cases "nearest_double (w * m) 1") auto
  with assms(3) have eq: "m' = m1" "e' = e1 + e" by auto
  have "dval (Dbl m1 e1) \<le> of_int (w * m) * (1 + 1 / 2 ^ 53)"
    using nearest_double_upper [OF pos _ n] by simp
  then have "dval (Dbl m1 e1) * 2 powr (of_int e) \<le> of_int (w * m) * (1 + 1 / 2 ^ 53) * 2 powr (of_int e)"
    by (simp add: mult_right_mono)
  then show ?thesis
    using eq by (simp add: powr_add algebra_simps)
qed

lemma scaled_edge_bound:
  assumes "0 \<le> w" and "w \<le> l" and "3000 < l"
  shows "trunc (mul_int w (truediv 3000 l)) \<le> 3000"
proof -
  obtain m e where s: "truediv 3000 l = Dbl m e" by (cases "truediv 3000 l") auto
  obtain m' e' where p: "mul_int w (Dbl m e) = Dbl m' e'" by (cases "mul_int w (Dbl m e)") auto
  have lpos: "0 < l" using assms by simp
  have su: "dval (Dbl m e) \<le> (3000 / of_int l) * (1 + 1 / 2 ^ 53)"
    using nearest_double_upper [of 3000 l m e] lpos s by (simp add: truediv_def)
  have m0: "0 \<le> m"
  proof -
    have "0 \<le> round_half_even n d" if "0 \<le> n" "0 < d" for n d
      using that by (auto simp: round_half_even_def Let_def pos_imp_zdiv_nonneg_iff)
    then show ?thesis
      using s lpos by (auto simp: truediv_def nearest_double_def Let_def split: if_splits)
  qed
  have "dval (Dbl m' e') \<le> of_int w * dval (Dbl m e) * (1 + 1 / 2 ^ 53)"
    using mul_int_upper [OF assms(1) m0 p] .
  also have "\<dots> \<le> of_int w * ((3000 / of_int l) * (1 + 1 / 2 ^ 53)) * (1 + 1 / 2 ^ 53)"
    by (intro mult_right_mono mult_left_mono) (use su assms(1) in simp_all)
  also have "\<dots> = (of_int w / of_int l) * (3000 * (1 + 1 / 2 ^ 53) * (1 + 1 / 2 ^ 53))"
    by (simp add: algebra_simps)
  also have "\<dots> \<le> 1 * (3000 * (1 + 1 / 2 ^ 53) * (1 + 1 / 2 ^ 53))"
  proof (rule mult_right_mono)
    show "real_of_int w / real_of_int l \<le> 1" using assms lpos by simp
  qed simp
  also have "\<dots> < 3001" by simp
  finally have "dval (Dbl m' e') < 3001" .
  with trunc_le_dval [of m' e'] have "real_of_int (trunc (Dbl m' e')) < 3001" by linarith
  then have "trunc (Dbl m' e') < 3001" by linarith
  with s p show ?thesis by simp
qed

lemma exif_transpose_cases:
  "(exif_transpose im = im \<and> (\<forall>n. orientation im = Some n \<longrightarrow> orientation_method n = None)
      \<and> oriented_size im = (width im, height im))
   \<or> (orientation (exif_transpose im) = None
      \<and> (width (exif_transpose im), height (exif_transpose im)) = oriented_size im
      \<and> mode (exif_transpose im) = mode im)"
proof (cases "orientation im")
  case None
  then show ?thesis
    by (simp add: exif_transpose_def orientation_method_def oriented_size_def)
next
  case (Some n)
  consider "n = 2" | "n = 3" | "n = 4" | "n = 5" | "n = 6" | "n = 7" | "n = 8"
    | "n \<notin> {2, 3, 4, 5, 6, 7, 8}" by blast
  then show ?thesis
    using Some
    by cases (auto simp: exif_transpose_def orientation_method_def oriented_size_def
        Image_transpose_def)
qed

lemma exif_transpose_size:
  "(width (exif_transpose im), height (exif_transpose im)) = oriented_size im"
  using exif_transpose_cases [of im] by auto

lemma exif_transpose_fixed:
  assumes "orientation y = orientation (exif_transpose im)"
  shows "exif_transpose y = y"
proof -
  have "orientation (exif_transpose im) = None
      \<or> (\<exists>n. orientation (exif_transpose im) = Some n \<and> orientation_method n = None)"
    using exif_transpose_cases [of im] by (cases "orientation im") auto
  with assms show ?thesis
    by (auto simp: exif_transpose_def orientation_method_def)
qed

lemma Image_convert_RGB:
  "mode (Image_convert im ''RGB'') = ''RGB''"
  "width (Image_convert im ''RGB'') = width im"
  "height (Image_convert im ''RGB'') = height im"
  "orientation (Image_convert im ''RGB'') = orientation im"
  by (simp_all add: Image_convert_def)

lemma Image_resize_Inr:
  assumes "Image_resize im sz = Inr out"
  shows "(width out, height out) = sz \<and> orientation out = orientation im"
  using assms by (auto simp: Image_resize_def split: if_splits)

lemma Image_resize_Inl:
  assumes "Image_resize im sz = Inl e"
  shows "fst sz < 1 \<or> snd sz < 1"
  using assms by (auto simp: Image_resize_def split: if_splits)

lemma oriented_size_nonneg:
  assumes "0 \<le> width im" and "0 \<le> height im"
  shows "0 \<le> fst (oriented_size im) \<and> 0 \<le> snd (oriented_size im)"
  using assms by (simp add: oriented_size_def)

lemma optimize_image_small:
  assumes "max (width y) (height y) \<le> 3000" and "mode y = ''RGB''" and "exif_transpose y = y"
  shows "optimize_image y 3000 q = Inr (y, q)"
proof -
  have "\<not> 3000 < max (width y) (height y)" using assms(1) by linarith
  then show ?thesis
    using assms(2,3) by (simp add: optimize_image_def Image_convert_def Let_def del: max_less_iff_conj)
qed

lemma wide_result:
  "optimize_image wide 3000 95 =
     Inr (\<lparr>width = 2999, height = 2154, mode = ''RGB'', orientation = None,
            pixels = Resampled 2999 2154 (Decoded 2)\<rparr>, 95)"
  by code_simp

lemma thin_result: "optimize_image thin 3000 95 = Inl ValueError"
  by code_simp

text \<open>
  Claim C3. The code departs from the claim. \<open>wide\<close> has a longer edge of 4177, above the
  ceiling, and the output's longer edge is 2999, not 3000: the quotient 3000 / 4177 is
  rounded down to a double, the product with 4177 falls just below 3000, and \<^verbatim>\<open>int\<close>
  truncates it. For \<open>thin\<close> the shorter edge is scaled to 0 and the library's resize
  raises, so no image is returned.
\<close>

theorem optimize_image_long_edge:
  "3000 < max (width wide) (height wide)
   \<and> optimize_image wide 3000 95 =
       Inr (\<lparr>width = 2999, height = 2154, mode = ''RGB'', orientation = None,
              pixels = Resampled 2999 2154 (Decoded 2)\<rparr>, 95)
   \<and> max 2999 2154 \<noteq> (3000::int)
   \<and> optimize_image thin 3000 95 = Inl ValueError"
  using wide_result thin_result by (simp add: wide_def)

text \<open>
  The shape of every result, for an image with non-negative width and height: with
  \<open>(w, h)\<close> the size after the orientation tag is applied and \<open>l\<close> the larger of the two, an
  image that is returned is RGB with both edges at most 3000.
\<close>

lemma optimize_image_shape:
  assumes "0 \<le> width im" and "0 \<le> height im"
  shows "(let (w, h) = oriented_size im;
              l = max w h;
              scaled = (\<lambda>x. trunc (mul_int x (truediv 3000 l)))
          in case optimize_image im 3000 95 of
               Inl e \<Rightarrow> 3000 < l \<and> (scaled w < 1 \<or> scaled h < 1)
             | Inr (out, q) \<Rightarrow>
                 mode out = ''RGB'' \<and> max (width out) (height out) \<le> 3000 \<and>
                 (if l \<le> 3000 then (width out, height out) = (w, h)
                  else (width out, height out) = (scaled w, scaled h)))"
proof -
  define t where "t = exif_transpose im"
  obtain w h where wh: "oriented_size im = (w, h)" by (cases "oriented_size im") auto
  have t: "width t = w" "height t = h"
    using exif_transpose_size [of im] wh by (simp_all add: t_def)
  have nn: "0 \<le> w" "0 \<le> h" using oriented_size_nonneg [OF assms] wh by simp_all
  define l where "l = max w h"
  define scaled where "scaled = (\<lambda>x. trunc (mul_int x (truediv 3000 l)))"
  have goal: "?thesis =
     (case optimize_image im 3000 95 of
        Inl e \<Rightarrow> 3000 < l \<and> (scaled w < 1 \<or> scaled h < 1)
      | Inr (out, q) \<Rightarrow>
          mode out = ''RGB'' \<and> max (width out) (height out) \<le> 3000 \<and>
          (if l \<le> 3000 then (width out, height out) = (w, h)
           else (width out, height out) = (scaled w, scaled h)))"
    unfolding wh Let_def prod.case l_def scaled_def ..
  show ?thesis
    unfolding goal
  proof (cases "3000 < l")
    case False
    then have le: "l \<le> 3000" by simp
    have "\<not> 3000 < max (width t) (height t)" using False t by (simp add: l_def)
    then have "optimize_image im 3000 95 = Inr (Image_convert t ''RGB'', 95)"
      by (simp add: optimize_image_def t_def [symmetric] Let_def del: max_less_iff_conj)
    moreover have "max (width t) (height t) \<le> 3000" using le t by (simp add: l_def)
    ultimately show "case optimize_image im 3000 95 of
        Inl e \<Rightarrow> 3000 < l \<and> (scaled w < 1 \<or> scaled h < 1)
      | Inr (out, q) \<Rightarrow>
          mode out = ''RGB'' \<and> max (width out) (height out) \<le> 3000 \<and>
          (if l \<le> 3000 then (width out, height out) = (w, h)
           else (width out, height out) = (scaled w, scaled h))"
      using le t by (simp add: Image_convert_RGB)
  next
    case True
    then have gt: "\<not> l \<le> 3000" by simp
    have b: "scaled w \<le> 3000" "scaled h \<le> 3000"
      using scaled_edge_bound [of w l] scaled_edge_bound [of h l] nn True
      by (simp_all add: scaled_def l_def)
    have "3000 < max (width t) (height t)" using True t by (simp add: l_def)
    then have o: "optimize_image im 3000 95 =
        (case Image_resize t (scaled w, scaled h) of
           Inl e \<Rightarrow> Inl e
         | Inr im \<Rightarrow> Inr (Image_convert im ''RGB'', 95))"
      using t by (simp add: optimize_image_def t_def [symmetric] l_def scaled_def Let_def
          del: less_max_iff_disj)
    show "case optimize_image im 3000 95 of
        Inl e \<Rightarrow> 3000 < l \<and> (scaled w < 1 \<or> scaled h < 1)
      | Inr (out, q) \<Rightarrow>
          mode out = ''RGB'' \<and> max (width out) (height out) \<le> 3000 \<and>
          (if l \<le> 3000 then (width out, height out) = (w, h)
           else (width out, height out) = (scaled w, scaled h))"
    proof (cases "Image_resize t (scaled w, scaled h)")
      case (Inl e)
      with Image_resize_Inl [OF Inl] o True show ?thesis by simp
    next
      case (Inr out)
      with Image_resize_Inr [OF Inr] o gt b show ?thesis
        by (simp add: Image_convert_RGB)
    qed
  qed
qed

text \<open>
  Claim C6. Applying the function to its own output gives that output again, with the
  same pixels, size and mode: the orientation tag is gone or calls for no turn, the longer
  edge is within the ceiling, and the mode is RGB already. Where the first call raises,
  so does the composition.
\<close>

theorem optimize_image_idempotent:
  assumes "0 \<le> width x" and "0 \<le> height x"
  shows "(case optimize_image x 3000 95 of
            Inl e \<Rightarrow> Inl e
          | Inr (y, q) \<Rightarrow> optimize_image y 3000 95) = optimize_image x 3000 95"
proof (cases "optimize_image x 3000 95")
  case (Inl e)
  then show ?thesis by simp
next
  case (Inr r)
  obtain y q where r: "r = (y, q)" by (cases r) auto
  define t where "t = exif_transpose x"
  have q: "q = 95"
    using Inr r by (auto simp: optimize_image_def Let_def split: if_splits sum.splits)
  have "\<exists>im. y = Image_convert im ''RGB'' \<and> orientation im = orientation t"
    using Inr r
    by (auto simp: optimize_image_def Let_def t_def split: if_splits sum.splits
        dest: Image_resize_Inr)
  then have y: "mode y = ''RGB''" "orientation y = orientation (exif_transpose x)"
    by (auto simp: Image_convert_RGB t_def)
  have size: "max (width y) (height y) \<le> 3000"
    using optimize_image_shape [OF assms] Inr r
    by (auto simp: Let_def split: prod.splits)
  have "optimize_image y 3000 95 = Inr (y, 95)"
    using optimize_image_small [OF size y(1) exif_transpose_fixed [OF y(2)]] .
  with Inr r q show ?thesis by simp
qed

theorem optimize_image_idempotent_witness:
  "optimize_image \<lparr>width = 2999, height = 2154, mode = ''RGB'', orientation = None,
                    pixels = Resampled 2999 2154 (Decoded 2)\<rparr> 3000 95
     = Inr (\<lparr>width = 2999, height = 2154, mode = ''RGB'', orientation = None,
              pixels = Resampled 2999 2154 (Decoded 2)\<rparr>, 95)"
proof -
  have 1: "0 \<le> width wide" and 2: "0 \<le> height wide"
    by (simp_all add: wide_def)
  show ?thesis
    using optimize_image_idempotent [OF 1 2] by (simp add: wide_result)
qed

subsection \<open>\<^verbatim>\<open>render_image\<close>\<close>

lemma footer_one_line: "CHR 0x0A \<notin> set FOOTER_TEXT"
  unfolding FOOTER_TEXT_def by code_simp

lemma nth_after_two: "(h @ [a, b]) ! Suc (length h) = b"
  by (simp add: nth_append)

lemma render_image_result:
  assumes "r < length h" and "CHR 0x0A \<notin> set lbl"
  shows "render_image be h r lbl =
    (Inr (Suc (length h)),
     h @ [h ! r,
          \<lparr>width = width (h ! r),
           height = height (h ! r) +
             (bbox3 (textbbox be (fontmode (Draw h r)) (0, 0) lbl (load_font be 32))
              - bbox1 (textbbox be (fontmode (Draw h r)) (0, 0) lbl (load_font be 32))
              + (bbox3 (textbbox be (fontmode (Draw h r)) (0, 0) FOOTER_TEXT (load_font be 20))
              - bbox1 (textbbox be (fontmode (Draw h r)) (0, 0) FOOTER_TEXT (load_font be 20)))
              + 20 * 2 + 10),
           mode = ''RGB'', orientation = None,
           pixels =
             Inked
               (Inked (Pasted (Solid ''white'') (pixels (h ! r)) 0 0)
                  \<lfloor>(of_int (width (h ! r)) - textlength be ''L'' lbl (load_font be 32)) / 2\<rfloor>
                  (height (h ! r) + 20) lbl ''black'' (load_font be 32) None)
               \<lfloor>(of_int (width (h ! r)) - textlength be ''L'' FOOTER_TEXT (load_font be 20)) / 2\<rfloor>
               (height (h ! r) + 20
                 + (bbox3 (textbbox be (fontmode (Draw h r)) (0, 0) lbl (load_font be 32))
                    - bbox1 (textbbox be (fontmode (Draw h r)) (0, 0) lbl (load_font be 32))) + 10)
               FOOTER_TEXT ''gray'' (load_font be 20) None\<rparr>])"
  using assms footer_one_line
  by (simp add: render_image_def ImageDraw_textlength_def Image_copy_def Image_new_def paste_def
      Draw_def draw_text_def Let_def nth_append list_update_append)

lemma render_image_raises:
  assumes "r < length h" and "CHR 0x0A \<in> set lbl"
  shows "\<exists>canvas. render_image be h r lbl = (Inl ValueError, h @ [h ! r, canvas])"
  using assms
  by (simp add: render_image_def ImageDraw_textlength_def Image_copy_def Image_new_def paste_def
      Draw_def Let_def nth_append list_update_append)

lemma rendered_eq:
  assumes "r < length h" and "CHR 0x0A \<notin> set lbl"
  shows "rendered be h r lbl = Inr
          \<lparr>width = width (h ! r),
           height = height (h ! r) +
             (bbox3 (textbbox be (fontmode (Draw h r)) (0, 0) lbl (load_font be 32))
              - bbox1 (textbbox be (fontmode (Draw h r)) (0, 0) lbl (load_font be 32))
              + (bbox3 (textbbox be (fontmode (Draw h r)) (0, 0) FOOTER_TEXT (load_font be 20))
              - bbox1 (textbbox be (fontmode (Draw h r)) (0, 0) FOOTER_TEXT (load_font be 20)))
              + 20 * 2 + 10),
           mode = ''RGB'', orientation = None,
           pixels =
             Inked
               (Inked (Pasted (Solid ''white'') (pixels (h ! r)) 0 0)
                  \<lfloor>(of_int (width (h ! r)) - textlength be ''L'' lbl (load_font be 32)) / 2\<rfloor>
                  (height (h ! r) + 20) lbl ''black'' (load_font be 32) None)
               \<lfloor>(of_int (width (h ! r)) - textlength be ''L'' FOOTER_TEXT (load_font be 20)) / 2\<rfloor>
               (height (h ! r) + 20
                 + (bbox3 (textbbox be (fontmode (Draw h r)) (0, 0) lbl (load_font be 32))
                    - bbox1 (textbbox be (fontmode (Draw h r)) (0, 0) lbl (load_font be 32))) + 10)
               FOOTER_TEXT ''gray'' (load_font be 20) None\<rparr>"
  unfolding rendered_def render_image_result [OF assms] by (simp add: nth_after_two)

lemma rendered_captioned:
  assumes "r < length h" and "CHR 0x0A \<notin> set lbl" and "mode (h ! r) = ''RGB''"
  shows "rendered be h r lbl = Inr (captioned be (h ! r) lbl)"
  unfolding rendered_eq [OF assms(1,2)] using assms(3)
  by (simp add: captioned_def bar_height_def text_height_def Draw_def)

lemma render_image_store:
  assumes "r < length h" and "CHR 0x0A \<notin> set lbl" and "mode (h ! r) = ''RGB''"
  shows "render_image be h r lbl
       = (Inr (Suc (length h)), h @ [h ! r, captioned be (h ! r) lbl])"
proof -
  have "rendered be h r lbl = Inr (captioned be (h ! r) lbl)"
    using rendered_captioned [OF assms] .
  then show ?thesis
    unfolding rendered_eq [OF assms(1,2)] render_image_result [OF assms(1,2)] by simp
qed

text \<open>
  Claim C4, as stated, fails: for a label with a line break the call raises at line 129
  and returns no canvas.
\<close>

theorem render_image_size_counterexample:
  "rendered bitmap_backend [photo] 0 (''Front'' @ [CHR 0x0A] @ ''view'') = Inl ValueError"
  by (simp add: rendered_def render_image_def ImageDraw_textlength_def Image_copy_def
      Image_new_def paste_def Draw_def Let_def)

text \<open>
  Claim C4, amended. For a prepared image (mode RGB) in the store and any label without a
  line break, the call returns a canvas that has the image's width, and whose height is
  the image's height plus \<open>bar_height\<close>: label text height plus footer text height plus
  twice the padding plus the gap, a function of the backend and the label only. The bar
  is strictly positive when the backend's two bounding boxes have their top above their
  bottom.
\<close>

theorem render_image_size:
  assumes "r < length h" and "mode (h ! r) = ''RGB''" and "CHR 0x0A \<notin> set lbl"
    and "0 \<le> text_height be lbl 32" and "0 \<le> text_height be FOOTER_TEXT 20"
  shows "\<exists>canvas. rendered be h r lbl = Inr canvas
       \<and> width canvas = width (h ! r)
       \<and> height canvas = height (h ! r) + bar_height be lbl
       \<and> 0 < bar_height be lbl"
  using assms
  by (simp add: rendered_eq bar_height_def text_height_def Draw_def)

theorem render_image_size_witness:
  "\<exists>canvas. rendered bitmap_backend [photo] 0 ''CPU'' = Inr canvas
     \<and> width canvas = 40 \<and> height canvas = 30 + 66"
proof -
  have 1: "(0::nat) < length [photo]" by simp
  have 2: "mode ([photo] ! 0) = ''RGB''" by (simp add: photo_def)
  have 3: "CHR 0x0A \<notin> set ''CPU''" by simp
  have 4: "0 \<le> text_height bitmap_backend ''CPU'' 32"
    by (simp add: text_height_def bitmap_backend_def)
  have 5: "0 \<le> text_height bitmap_backend FOOTER_TEXT 20"
    by (simp add: text_height_def bitmap_backend_def)
  have 6: "bar_height bitmap_backend ''CPU'' = 66"
    by (simp add: bar_height_def text_height_def bitmap_backend_def)
  show ?thesis
    using render_image_size [OF 1 2 3 4 5] by (simp add: photo_def 6)
qed

text \<open>
  Claim C9. A call leaves every object that was in the store as it was, the argument
  included (pixels, size, mode), whether it returns or raises; a canvas it returns is an
  object that was not in the store.
\<close>

theorem render_image_frame:
  assumes "r < length h"
  shows "(case render_image be h r lbl of (res, h') \<Rightarrow>
           h' ! r = h ! r \<and> take (length h) h' = h \<and>
           (case res of Inl e \<Rightarrow> True | Inr canvas \<Rightarrow> length h \<le> canvas))"
proof (cases "CHR 0x0A \<in> set lbl")
  case True
  from render_image_raises [OF assms True, of be] show ?thesis
    using assms by (auto simp: nth_append)
next
  case False
  from render_image_result [OF assms False, of be] show ?thesis
    using assms by (simp add: nth_append)
qed

theorem render_image_frame_witness:
  "(case render_image bitmap_backend [photo] 0 ''CPU'' of (res, h') \<Rightarrow>
      h' ! 0 = photo \<and> take 1 h' = [photo] \<and>
      (case res of Inl e \<Rightarrow> True | Inr canvas \<Rightarrow> 1 \<le> canvas))"
proof -
  have 1: "(0::nat) < length [photo]" by simp
  show ?thesis
    using render_image_frame [OF 1, of bitmap_backend "''CPU''"]
    by (auto split: prod.splits sum.splits)
qed

text \<open>
  Claim C10. When the label has a measured width and is wider than the image, the call
  returns a canvas that still has the image's width. Exactly two texts are drawn on it,
  the label and the footer; the label starts at x = floor((width - label width) / 2),
  which is negative, and likewise the footer when it is wider than the image. Drawing
  never resizes the canvas, so ink left of 0 or right of the width has no pixel to land
  on.
\<close>

theorem render_image_overflow:
  assumes "r < length h"
    and "ImageDraw_textlength be ''L'' lbl (load_font be 32) = Inr lw"
    and "of_int (width (h ! r)) < lw"
  shows "\<exists>canvas. rendered be h r lbl = Inr canvas
       \<and> width canvas = width (h ! r)
       \<and> map (\<lambda>(x, y, s). (x, s)) (inks (pixels canvas)) =
           [(\<lfloor>(of_int (width (h ! r)) - lw) / 2\<rfloor>, lbl),
            (\<lfloor>(of_int (width (h ! r)) - textlength be ''L'' FOOTER_TEXT (load_font be 20)) / 2\<rfloor>,
             FOOTER_TEXT)]
       \<and> \<lfloor>(of_int (width (h ! r)) - lw) / 2\<rfloor> < 0
       \<and> (of_int (width (h ! r)) < textlength be ''L'' FOOTER_TEXT (load_font be 20) \<longrightarrow>
            \<lfloor>(of_int (width (h ! r)) - textlength be ''L'' FOOTER_TEXT (load_font be 20)) / 2\<rfloor> < 0)"
proof -
  have neg: "\<lfloor>(of_int w - x) / 2\<rfloor> < 0" if "of_int w < x" for w :: int and x :: rat
    using that by (simp add: floor_less_iff)
  have one_line: "CHR 0x0A \<notin> set lbl" and lw: "lw = textlength be ''L'' lbl (load_font be 32)"
    using assms(2) by (auto simp: ImageDraw_textlength_def split: if_splits)
  show ?thesis
    using assms(1,3) neg by (simp add: rendered_eq [OF assms(1) one_line] lw)
qed

theorem render_image_overflow_witness:
  "\<exists>canvas. rendered bitmap_backend [photo] 0 ''Internal Packaging and Accessories'' = Inr canvas
   \<and> width canvas = 40
   \<and> map (\<lambda>(x, y, s). (x, s)) (inks (pixels canvas))
      = [(- 82, ''Internal Packaging and Accessories''), (- 82, FOOTER_TEXT)]"
proof -
  have 1: "(0::nat) < length [photo]" by simp
  have 2: "ImageDraw_textlength bitmap_backend ''L'' ''Internal Packaging and Accessories''
             (load_font bitmap_backend 32) = Inr 204"
    by (simp add: ImageDraw_textlength_def bitmap_backend_def)
  have 3: "of_int (width ([photo] ! 0)) < (204::rat)"
    by (simp add: photo_def)
  show ?thesis
    using render_image_overflow [OF 1 2 3]
    by (simp add: photo_def bitmap_backend_def FOOTER_TEXT_def load_font_def)
qed

subsection \<open>The cover page\<close>

lemma length_draw_text [simp]: "length (draw_text h d xy s fill f a) = length h"
  by (simp add: draw_text_def)

lemma draw_text_other: "r \<noteq> target d \<Longrightarrow> draw_text h d xy s fill f a ! r = h ! r"
  by (simp add: draw_text_def)

lemma draw_text_target:
  "target d < length h \<Longrightarrow>
   draw_text h d xy s fill f a ! target d
     = (h ! target d)\<lparr>pixels := Inked (pixels (h ! target d)) (fst xy) (snd xy) s fill f a\<rparr>"
  by (simp add: draw_text_def)

lemma description_lines_Cons:
  "description_lines y (l # ls) = (80, y, l) # description_lines (y + 34) ls"
proof -
  have "map (\<lambda>(i, line). (80, y + 34 * int i, line)) (enumerate (Suc 0) ls)
      = map (\<lambda>(i, line). (80, y + 34 + 34 * int i, line)) (enumerate 0 ls)"
    by (simp add: enumerate_Suc_eq split_def algebra_simps)
  then show ?thesis by (simp add: description_lines_def)
qed

lemma draw_lines_result:
  assumes "target d < length h"
  shows "\<exists>h'. draw_lines h d f y lines = (h', y + 34 * int (length lines))
     \<and> length h' = length h
     \<and> (\<forall>r. r \<noteq> target d \<longrightarrow> h' ! r = h ! r)
     \<and> width (h' ! target d) = width (h ! target d)
     \<and> height (h' ! target d) = height (h ! target d)
     \<and> mode (h' ! target d) = mode (h ! target d)
     \<and> inks (pixels (h' ! target d)) = inks (pixels (h ! target d)) @ description_lines y lines"
  using assms
proof (induction lines arbitrary: h y)
  case Nil
  then show ?case by (simp add: description_lines_def)
next
  case (Cons l ls)
  let ?h1 = "draw_text h d (80, y) l ''black'' f None"
  have t: "target d < length ?h1" using Cons.prems by simp
  from Cons.IH [OF t, of "y + 34"] obtain h' where
    h': "draw_lines ?h1 d f (y + 34) ls = (h', y + 34 + 34 * int (length ls))"
      "length h' = length ?h1" "\<forall>r. r \<noteq> target d \<longrightarrow> h' ! r = ?h1 ! r"
      "width (h' ! target d) = width (?h1 ! target d)"
      "height (h' ! target d) = height (?h1 ! target d)"
      "mode (h' ! target d) = mode (?h1 ! target d)"
      "inks (pixels (h' ! target d)) = inks (pixels (?h1 ! target d)) @ description_lines (y + 34) ls"
    by blast
  show ?case
    using h' Cons.prems
    by (simp add: draw_text_target draw_text_other description_lines_Cons algebra_simps)
qed

lemma wrap_60: "wrap text 60 = Inr (wrap_chunks 60 [] (split_chunks text))"
  by (simp add: wrap_def)

lemma cover_page_result:
  "\<exists>h'. cover_page be md h = Inr (length h, h @ [h'])
     \<and> width h' = 1020 \<and> height h' = 850 \<and> mode h' = ''RGB''
     \<and> inks (pixels h') =
         [(510, 90, ''NED FAI REPORT''), (60, 180, ''Description:'')]
         @ description_lines 225 (wrap_chunks 60 [] (split_chunks (description md)))
         @ [(60, 255 + 34 * int (length (wrap_chunks 60 [] (split_chunks (description md)))),
               ''KMATX Part Number : '' @ kmatx_part_number md),
            (60, 305 + 34 * int (length (wrap_chunks 60 [] (split_chunks (description md)))),
               ''HALBX Part Number : '' @ halbX_part_number md),
            (60, 355 + 34 * int (length (wrap_chunks 60 [] (split_chunks (description md)))),
               ''Sales Order : '' @ sales_order md),
            (60, 405 + 34 * int (length (wrap_chunks 60 [] (split_chunks (description md)))),
               ''Date : '' @ strftime be (report_date md) ''%d %b %Y''),
            (510, 815, FOOTER_TEXT)]"
proof -
  let ?lines = "wrap_chunks 60 [] (split_chunks (description md))"
  let ?c = "\<lparr>width = 1020, height = 850, mode = ''RGB'', orientation = None, pixels = Solid ''white''\<rparr>"
  let ?d = "\<lparr>target = length h, fontmode = ''L''\<rparr>"
  let ?h1 = "h @ [?c]"
  let ?h2 = "draw_text ?h1 ?d (510, 90) ''NED FAI REPORT'' ''black'' (load_font be 56) (Some ''mm'')"
  let ?h3 = "draw_text ?h2 ?d (60, 180) ''Description:'' ''black'' (load_font be 30) None"
  have t: "target ?d < length ?h3" by simp
  from draw_lines_result [OF t, of "load_font be 26" 225 ?lines] obtain h4 where
    h4: "draw_lines ?h3 ?d (load_font be 26) 225 ?lines = (h4, 225 + 34 * int (length ?lines))"
      "length h4 = length ?h3" "\<forall>r. r \<noteq> target ?d \<longrightarrow> h4 ! r = ?h3 ! r"
      "width (h4 ! target ?d) = width (?h3 ! target ?d)"
      "height (h4 ! target ?d) = height (?h3 ! target ?d)"
      "mode (h4 ! target ?d) = mode (?h3 ! target ?d)"
      "inks (pixels (h4 ! target ?d)) = inks (pixels (?h3 ! target ?d)) @ description_lines 225 ?lines"
    by blast
  have h3: "?h3 ! length h = ?c\<lparr>pixels := Inked (Inked (Solid ''white'') 510 90 ''NED FAI REPORT'' ''black'' (load_font be 56) (Some ''mm'')) 60 180 ''Description:'' ''black'' (load_font be 30) None\<rparr>"
    by (simp add: draw_text_def)
  have len4: "length h4 = Suc (length h)" using h4(2) by simp
  have pre4: "take (length h) h4 = h"
  proof (rule nth_equalityI)
    show "length (take (length h) h4) = length h" using len4 by simp
  next
    fix i assume "i < length (take (length h) h4)"
    then have i: "i < length h" by simp
    then have "h4 ! i = ?h3 ! i" using h4(3) by simp
    also have "\<dots> = h ! i" using i by (simp add: draw_text_def nth_append)
    finally show "take (length h) h4 ! i = h ! i" using i by simp
  qed
  have h4_eq: "h4 = h @ [h4 ! length h]"
  proof -
    have "h4 = take (length h) h4 @ drop (length h) h4" by simp
    moreover have "drop (length h) h4 = [h4 ! length h]"
      using len4 by (metis Cons_nth_drop_Suc drop_all lessI order_refl)
    ultimately show ?thesis using pre4 by simp
  qed
  define c4 where "c4 = h4 ! length h"
  have c4: "width c4 = 1020" "height c4 = 850" "mode c4 = ''RGB''"
    "inks (pixels c4) = [(510, 90, ''NED FAI REPORT''), (60, 180, ''Description:'')] @ description_lines 225 ?lines"
    using h4(4-7) h3 unfolding c4_def by simp_all
  have h4': "h4 = h @ [c4]" using h4_eq c4_def by simp
  show ?thesis
    unfolding cover_page_def wrap_60
    using h4(1) c4
    apply (simp add: Image_new_def Draw_def COVER_WIDTH_def COVER_HEIGHT_def Let_def)
    apply (simp add: h4' draw_text_def)
    done
qed

text \<open>
  Claim C8. Whatever the metadata, the cover page is built and is 1020 wide and 850 high.
\<close>

theorem cover_page_size:
  "\<exists>cover h'. cover_page be md h = Inr (cover, h')
     \<and> width (h' ! cover) = COVER_WIDTH \<and> height (h' ! cover) = COVER_HEIGHT
     \<and> COVER_WIDTH = 1020 \<and> COVER_HEIGHT = 850"
proof -
  from cover_page_result [of be md h] obtain c where
    "cover_page be md h = Inr (length h, h @ [c])" "width c = 1020" "height c = 850"
    by blast
  then show ?thesis
    by (simp add: COVER_WIDTH_def COVER_HEIGHT_def)
qed

subsection \<open>Wrapping the description\<close>

declare wrap_chunks.simps [simp del]

lemma whitespace_isspace: "is_whitespace c \<Longrightarrow> isspace c"
  by (auto simp: is_whitespace_def isspace_def Let_def)

lemma tab_isspace: "code c = 9 \<Longrightarrow> isspace c"
  by (simp add: isspace_def)

lemma plain_Cons: "plain (c # cs) = (\<not> isspace c \<and> c \<noteq> CHR ''-'' \<and> plain cs)"
  by (auto simp: plain_def)

lemma plain_expandtabs: "plain t \<Longrightarrow> expandtabs 8 col t = t"
  by (induction t arbitrary: col) (auto simp: plain_Cons dest: tab_isspace)

lemma plain_munge: "plain t \<Longrightarrow> munge_whitespace t = t"
proof -
  assume p: "plain t"
  then have "\<forall>c\<in>set t. \<not> is_whitespace c"
    by (auto simp: plain_def list_ex_iff dest: whitespace_isspace)
  then have "map (\<lambda>c. if is_whitespace c then CHR '' '' else c) t = t"
    by (simp add: map_idI)
  with p show ?thesis by (simp add: munge_whitespace_def plain_expandtabs)
qed

lemma plain_no_emdash: "plain t \<Longrightarrow> \<not> emdash_ahead t"
  by (cases t) (auto simp: emdash_ahead_def plain_Cons)

lemma plain_word_extra: "plain cs \<Longrightarrow> word_extra bef cs = length cs"
proof (induction cs arbitrary: bef)
  case Nil
  then show ?case by simp
next
  case (Cons c cs)
  then have "\<not> is_whitespace c" "c \<noteq> CHR ''-''" "\<not> emdash_ahead (c # cs)" "plain cs"
    using plain_no_emdash [of "c # cs"] by (auto simp: plain_Cons dest: whitespace_isspace)
  with Cons.IH show ?case by simp
qed

lemma plain_split: "plain t \<Longrightarrow> t \<noteq> [] \<Longrightarrow> split_chunks t = [t]"
proof -
  assume p: "plain t" and ne: "t \<noteq> []"
  then obtain c cs where t: "t = c # cs" by (cases t) auto
  with p have "\<not> is_whitespace c" "\<not> emdash_ahead (c # cs)" "plain cs"
    using plain_no_emdash [of "c # cs"] by (auto simp: plain_Cons dest: whitespace_isspace)
  then have "chunk_extra [] c cs = length cs"
    by (simp add: chunk_extra_def plain_word_extra)
  then have "split_from [] (c # cs) = [c # cs]" by simp
  with p t show ?thesis by (simp add: split_chunks_def plain_munge)
qed

lemma plain_not_blank: "plain t \<Longrightarrow> t \<noteq> [] \<Longrightarrow> \<not> blank t"
  by (cases t) (auto simp: blank_def plain_Cons)

lemma plain_take: "plain t \<Longrightarrow> plain (take n t)"
  by (auto simp: plain_def list_ex_iff dest: in_set_takeD)

lemma plain_drop: "plain t \<Longrightarrow> plain (drop n t)"
  by (auto simp: plain_def list_ex_iff dest: in_set_dropD)

lemma plain_rfind: "plain t \<Longrightarrow> rfind_hyphen t n = - 1"
proof -
  assume "plain t"
  then have "\<forall>i < length t. t ! i \<noteq> CHR ''-''"
    by (auto simp: plain_def list_ex_iff)
  then have "filter (\<lambda>i. t ! i = CHR ''-'') (rev [0..<min n (length t)]) = []"
    by (auto simp: filter_empty_conv)
  then show ?thesis by (simp add: rfind_hyphen_def)
qed

lemma fill_line_long:
  assumes "plain t" and "60 < length t"
  shows "fill_line 60 started [t] = ([take 60 t], [drop 60 t])"
proof -
  have ne: "t \<noteq> []" "take 60 t \<noteq> []" using assms(2) by auto
  have nb: "\<not> blank t" "\<not> blank (take 60 t)"
    using plain_not_blank assms(1) ne plain_take by blast+
  show ?thesis
    using assms nb
    by (simp add: fill_line_def handle_long_word_def plain_rfind Let_def)
qed

lemma fill_line_short:
  assumes "plain t" and "t \<noteq> []" and "length t \<le> 60"
  shows "fill_line 60 started [t] = ([t], [])"
  using assms plain_not_blank [OF assms(1,2)]
  by (simp add: fill_line_def Let_def)

lemma wrap_chunks_long:
  assumes "plain t" and "60 < length t"
  shows "wrap_chunks 60 lines [t] = wrap_chunks 60 (lines @ [take 60 t]) [drop 60 t]"
  by (subst wrap_chunks.simps) (simp add: fill_line_long [OF assms])

lemma wrap_chunks_short:
  assumes "plain t" and "t \<noteq> []" and "length t \<le> 60"
  shows "wrap_chunks 60 lines [t] = lines @ [t]"
  apply (subst wrap_chunks.simps)
  apply (simp add: fill_line_short [OF assms])
  apply (subst wrap_chunks.simps)
  apply simp
  done

lemma wrap_plain_300:
  assumes "plain t" and "length t = 300"
  shows "wrap t 60 = Inr (map (\<lambda>i. take 60 (drop (60 * i) t)) [0..<5])"
proof -
  have ne: "t \<noteq> []" using assms(2) by auto
  have p: "plain (drop n t)" for n using assms(1) by (rule plain_drop)
  have "wrap_chunks 60 [] [t] = wrap_chunks 60 [take 60 t] [drop 60 t]"
    using wrap_chunks_long [OF assms(1), of "[]"] assms(2) by simp
  also have "\<dots> = wrap_chunks 60 [take 60 t, take 60 (drop 60 t)] [drop 120 t]"
    using wrap_chunks_long [OF p [of 60], of "[take 60 t]"] assms(2) by simp
  also have "\<dots> = wrap_chunks 60 [take 60 t, take 60 (drop 60 t), take 60 (drop 120 t)] [drop 180 t]"
    using wrap_chunks_long [OF p [of 120], of "[take 60 t, take 60 (drop 60 t)]"] assms(2) by simp
  also have "\<dots> = wrap_chunks 60 [take 60 t, take 60 (drop 60 t), take 60 (drop 120 t),
                       take 60 (drop 180 t)] [drop 240 t]"
    using wrap_chunks_long [OF p [of 180], of "[take 60 t, take 60 (drop 60 t), take 60 (drop 120 t)]"]
      assms(2) by simp
  also have "\<dots> = [take 60 t, take 60 (drop 60 t), take 60 (drop 120 t), take 60 (drop 180 t),
                   drop 240 t]"
    using wrap_chunks_short [OF p [of 240], of "[take 60 t, take 60 (drop 60 t), take 60 (drop 120 t),
        take 60 (drop 180 t)]"] assms(2) by simp
  finally have "wrap_chunks 60 [] [t] = map (\<lambda>i. take 60 (drop (60 * i) t)) [0..<5]"
    using assms(2) by (simp add: upt_rec)
  then show ?thesis
    using plain_split [OF assms(1) ne] by (simp add: wrap_def)
qed

lemma wrap_empty: "wrap [] 60 = Inr []"
  by (simp add: wrap_def split_chunks_def munge_whitespace_def wrap_chunks.simps)

lemma words300_wrap:
  "wrap words300 60 = Inr (replicate 6 (replicate 40 CHR ''w'')
       @ [replicate 40 CHR ''w'' @ '' '' @ replicate 13 CHR ''x''])"
  unfolding words300_def by code_simp

text \<open>
  Claim C5, as stated, fails: \<open>words300\<close> has 300 characters and wraps into seven lines
  at width 60, since a line break falls between words.
\<close>

theorem cover_description_layout_counterexample:
  "length words300 = 300
   \<and> wrap words300 60 = Inr (replicate 6 (replicate 40 CHR ''w'')
       @ [replicate 40 CHR ''w'' @ '' '' @ replicate 13 CHR ''x''])
   \<and> length (replicate 6 (replicate 40 CHR ''w'')
       @ [replicate 40 CHR ''w'' @ '' '' @ replicate 13 CHR ''x'']) = 7"
proof -
  have "length words300 = 300"
    unfolding words300_def by code_simp
  then show ?thesis
    using words300_wrap by simp
qed

text \<open>
  Claim C5, amended. The cover page draws the wrapped lines of the description at x = 80
  and y = 225 + 34 i for i = 0, 1, ..., between the "Description:" heading and the four
  fields, so at strictly increasing offsets 34 apart. An empty description gives no line.
  A description of exactly 300 characters without whitespace and without hyphens gives
  exactly five lines, its five consecutive pieces of 60 characters.
\<close>

theorem cover_description_layout:
  "\<exists>cover h' lines.
      cover_page be md h = Inr (cover, h')
    \<and> wrap (description md) 60 = Inr lines
    \<and> inks (pixels (h' ! cover)) =
         [(510, 90, ''NED FAI REPORT''), (60, 180, ''Description:'')]
         @ map (\<lambda>(i, line). (80, 225 + 34 * int i, line)) (enumerate 0 lines)
         @ [(60, 255 + 34 * int (length lines), ''KMATX Part Number : '' @ kmatx_part_number md),
            (60, 305 + 34 * int (length lines), ''HALBX Part Number : '' @ halbX_part_number md),
            (60, 355 + 34 * int (length lines), ''Sales Order : '' @ sales_order md),
            (60, 405 + 34 * int (length lines), ''Date : '' @ strftime be (report_date md) ''%d %b %Y''),
            (510, 815, FOOTER_TEXT)]
    \<and> (description md = [] \<longrightarrow> lines = [])
    \<and> (length (description md) = 300 \<and> plain (description md) \<longrightarrow>
          lines = map (\<lambda>i. take 60 (drop (60 * i) (description md))) [0..<5])"
proof -
  let ?lines = "wrap_chunks 60 [] (split_chunks (description md))"
  from cover_page_result [of be md h] obtain c where
    c: "cover_page be md h = Inr (length h, h @ [c])"
       "inks (pixels c) =
         [(510, 90, ''NED FAI REPORT''), (60, 180, ''Description:'')]
         @ description_lines 225 ?lines
         @ [(60, 255 + 34 * int (length ?lines), ''KMATX Part Number : '' @ kmatx_part_number md),
            (60, 305 + 34 * int (length ?lines), ''HALBX Part Number : '' @ halbX_part_number md),
            (60, 355 + 34 * int (length ?lines), ''Sales Order : '' @ sales_order md),
            (60, 405 + 34 * int (length ?lines), ''Date : '' @ strftime be (report_date md) ''%d %b %Y''),
            (510, 815, FOOTER_TEXT)]"
    by blast
  have w: "wrap (description md) 60 = Inr ?lines" by (rule wrap_60)
  have e: "description md = [] \<longrightarrow> ?lines = []"
    using wrap_empty w by auto
  have p: "length (description md) = 300 \<and> plain (description md) \<longrightarrow>
          ?lines = map (\<lambda>i. take 60 (drop (60 * i) (description md))) [0..<5]"
    using wrap_plain_300 [of "description md"] w by auto
  show ?thesis
    using c w e p unfolding description_lines_def
    by (intro exI [of _ "length h"] exI [of _ "h @ [c]"] exI [of _ ?lines]) simp
qed

theorem cover_description_layout_witness:
  "wrap (replicate 300 CHR ''a'') 60 = Inr (replicate 5 (replicate 60 CHR ''a''))
   \<and> wrap [] 60 = Inr []"
proof -
  let ?md = "sample_metadata\<lparr>description := replicate 300 CHR ''a''\<rparr>"
  let ?none = "sample_metadata\<lparr>description := []\<rparr>"
  have 1: "length (description ?md) = 300 \<and> plain (description ?md)"
    by (simp add: plain_def list_ex_iff isspace_def code_def)
  from cover_description_layout [of bitmap_backend ?md "[]"] obtain lines where
    l: "wrap (description ?md) 60 = Inr lines"
       "length (description ?md) = 300 \<and> plain (description ?md) \<longrightarrow>
          lines = map (\<lambda>i. take 60 (drop (60 * i) (description ?md))) [0..<5]"
    by blast
  from l(2) 1 have "lines = map (\<lambda>i. take 60 (drop (60 * i) (description ?md))) [0..<5]"
    by blast
  then have "lines = replicate 5 (replicate 60 CHR ''a'')"
    by (simp add: upt_rec numeral_eq_Suc)
  with l(1) have full: "wrap (replicate 300 CHR ''a'') 60 = Inr (replicate 5 (replicate 60 CHR ''a''))"
    by simp
  from cover_description_layout [of bitmap_backend ?none "[]"] obtain none where
    n: "wrap (description ?none) 60 = Inr none" "description ?none = [] \<longrightarrow> none = []"
    by blast
  then have "wrap [] 60 = Inr []" by simp
  with full show ?thesis by simp
qed

subsection \<open>Exporting\<close>

lemma inked_append: "inked p (xs @ ys) = inked (inked p xs) ys"
  by (induction p xs rule: inked.induct) simp_all

lemma draw_lines_inked:
  assumes "target d < length h"
  shows "draw_lines h d f y lines =
    (h[target d := (h ! target d)\<lparr>pixels := inked (pixels (h ! target d))
         (map (\<lambda>(i, line). (80, y + 34 * int i, line, ''black'', f, None)) (enumerate 0 lines))\<rparr>],
     y + 34 * int (length lines))"
  using assms
proof (induction lines arbitrary: h y)
  case Nil
  then show ?case by simp
next
  case (Cons l ls)
  let ?h1 = "draw_text h d (80, y) l ''black'' f None"
  have t: "target d < length ?h1" using Cons.prems by (simp add: draw_text_def)
  have shift: "map (\<lambda>(i, line). (80, y + 34 * int i, line, ''black'', f, None)) (enumerate (Suc 0) ls)
      = map (\<lambda>(i, line). (80, y + 34 + 34 * int i, line, ''black'', f, None)) (enumerate 0 ls)"
    by (simp add: enumerate_Suc_eq split_def algebra_simps)
  have len: "y + 34 + 34 * int (length ls) = y + 34 * int (length (l # ls))" by simp
  have "draw_lines h d f y (l # ls) = draw_lines ?h1 d f (y + 34) ls" by simp
  also have "\<dots> =
    (?h1[target d := (?h1 ! target d)\<lparr>pixels := inked (pixels (?h1 ! target d))
         (map (\<lambda>(i, line). (80, y + 34 + 34 * int i, line, ''black'', f, None)) (enumerate 0 ls))\<rparr>],
     y + 34 + 34 * int (length ls))"
    by (rule Cons.IH [OF t])
  also have "\<dots> =
    (h[target d := (h ! target d)\<lparr>pixels := inked (pixels (h ! target d))
         (map (\<lambda>(i, line). (80, y + 34 * int i, line, ''black'', f, None)) (enumerate 0 (l # ls)))\<rparr>],
     y + 34 * int (length (l # ls)))"
    unfolding len using Cons.prems by (simp add: draw_text_def shift del: length_Cons)
  finally show ?case .
qed

lemma cover_page_canvas:
  "cover_page be md h =
     Inr (length h, h @ [cover_canvas be md (wrap_chunks 60 [] (split_chunks (description md)))])"
proof -
  let ?lines = "wrap_chunks 60 [] (split_chunks (description md))"
  let ?d = "\<lparr>target = length h, fontmode = ''L''\<rparr>"
  have w: "wrap (description md) 60 = Inr ?lines" by (simp add: wrap_def)
  have dl: "draw_lines h' ?d f y ?lines =
    (h'[length h := (h' ! length h)\<lparr>pixels := inked (pixels (h' ! length h))
         (map (\<lambda>(i, line). (80, y + 34 * int i, line, ''black'', f, None)) (enumerate 0 ?lines))\<rparr>],
     y + 34 * int (length ?lines))" if "length h < length h'" for h' f y
    using draw_lines_inked [of ?d h' f y ?lines] that by simp
  show ?thesis
    unfolding cover_page_def w
    by (simp add: Image_new_def Draw_def COVER_WIDTH_def COVER_HEIGHT_def Let_def draw_text_def dl
        cover_canvas_def inked_append del: wrap_chunks.simps)
qed

lemma image_pages_result:
  assumes "\<forall>e\<in>set sel. img e < length h \<and> mode (h ! img e) = ''RGB'' \<and> CHR 0x0A \<notin> set (label e)"
    and "\<forall>r\<in>set pgs. r < length h"
  shows "\<exists>pgs' h'. image_pages be h sel pgs = (Inr pgs', h')
     \<and> map (\<lambda>r. h' ! r) pgs' = map (\<lambda>r. h ! r) pgs @ map (\<lambda>e. captioned be (h ! img e) (label e)) sel"
  using assms
proof (induction sel arbitrary: h pgs)
  case Nil
  then show ?case by simp
next
  case (Cons e sel)
  let ?h1 = "h @ [h ! img e, captioned be (h ! img e) (label e)]"
  have e: "img e < length h" "CHR 0x0A \<notin> set (label e)" "mode (h ! img e) = ''RGB''"
    using Cons.prems(1) by simp_all
  have step: "render_image be h (img e) (label e) = (Inr (Suc (length h)), ?h1)"
    using render_image_store [OF e] .
  have same: "?h1 ! img x = h ! img x" if "x \<in> set sel" for x
    using that Cons.prems(1) by (simp add: nth_append)
  have 1: "\<forall>x\<in>set sel. img x < length ?h1 \<and> mode (?h1 ! img x) = ''RGB'' \<and> CHR 0x0A \<notin> set (label x)"
    using Cons.prems(1) same by auto
  have 2: "\<forall>r\<in>set (pgs @ [Suc (length h)]). r < length ?h1" using Cons.prems(2) by auto
  from Cons.IH [OF 1 2] obtain pgs' h' where
    r: "image_pages be ?h1 sel (pgs @ [Suc (length h)]) = (Inr pgs', h')"
      "map (\<lambda>r. h' ! r) pgs' = map (\<lambda>r. ?h1 ! r) (pgs @ [Suc (length h)])
          @ map (\<lambda>x. captioned be (?h1 ! img x) (label x)) sel"
    by blast
  have 3: "map (\<lambda>r. ?h1 ! r) pgs = map (\<lambda>r. h ! r) pgs"
    using Cons.prems(2) by (simp add: nth_append)
  have 4: "map (\<lambda>x. captioned be (?h1 ! img x) (label x)) sel
         = map (\<lambda>x. captioned be (h ! img x) (label x)) sel"
    using same by simp
  have 5: "?h1 ! Suc (length h) = captioned be (h ! img e) (label e)"
    by (rule nth_after_two)
  show ?case
    using r step 3 4 5 by simp
qed

text \<open>
  Claim C1, as stated, fails: the draft \<open>line_break_label\<close> has one included entry, and
  the handler raises where it renders that entry, so no document is exported.
\<close>

theorem convert_to_pdf_pages_counterexample:
  "length (filter incl (draft line_break_label)) = 1
   \<and> fst (convert_to_pdf bitmap_backend sample_metadata line_break_label [photo]) = Raised ValueError"
proof -
  let ?c = "cover_canvas bitmap_backend sample_metadata
              (wrap_chunks 60 [] (split_chunks (description sample_metadata)))"
  have c: "cover_page bitmap_backend sample_metadata [photo] = Inr (1, [photo, ?c])"
    using cover_page_canvas [of bitmap_backend sample_metadata "[photo]"] by simp
  have "(0::nat) < length [photo, ?c]" and "CHR 0x0A \<in> set (''Front'' @ [CHR 0x0A] @ ''view'')"
    by simp_all
  from render_image_raises [OF this, of bitmap_backend] obtain canvas where
    "render_image bitmap_backend [photo, ?c] 0 (''Front'' @ [CHR 0x0A] @ ''view'')
       = (Inl ValueError, [photo, ?c] @ [[photo, ?c] ! 0, canvas])"
    by blast
  with c show ?thesis
    by (simp add: convert_to_pdf_def line_break_label_def Let_def del: wrap_chunks.simps)
qed

text \<open>
  Claim C1, amended. With k included entries, k at least 1, whose images are prepared
  (mode RGB) and in the store and whose labels have no line break, the handler completes
  with a document of 1 + k pages. Page 0 is the cover page: the 1020 by 850 canvas with
  the title, the heading, the wrapped description, the four fields and the footer. The
  pages after it are the captioned renderings of the included entries, each of its own
  image under its own label, in the order of the draft; excluded entries are skipped.
\<close>

theorem convert_to_pdf_pages:
  assumes "\<forall>e\<in>set (filter incl (draft s)).
             img e < length h \<and> mode (h ! img e) = ''RGB'' \<and> CHR 0x0A \<notin> set (label e)"
    and "1 \<le> length (filter incl (draft s))"
  shows "\<exists>lines doc h2.
      wrap (description md) 60 = Inr lines
    \<and> convert_to_pdf be md s h = (Done doc, h2)
    \<and> length (pages doc) = 1 + length (filter incl (draft s))
    \<and> pages doc = cover_canvas be md lines
                    # map (\<lambda>e. captioned be (h ! img e) (label e)) (filter incl (draft s))"
proof -
  let ?sel = "filter incl (draft s)"
  let ?lines = "wrap_chunks 60 [] (split_chunks (description md))"
  let ?c = "cover_canvas be md ?lines"
  have w: "wrap (description md) 60 = Inr ?lines" by (simp add: wrap_def)
  have c: "cover_page be md h = Inr (length h, h @ [?c])" by (rule cover_page_canvas)
  have same: "(h @ [?c]) ! img x = h ! img x" if "x \<in> set ?sel" for x
    using that assms(1) by (simp add: nth_append)
  have 1: "\<forall>e\<in>set ?sel. img e < length (h @ [?c]) \<and> mode ((h @ [?c]) ! img e) = ''RGB''
             \<and> CHR 0x0A \<notin> set (label e)"
    using assms(1) same by auto
  have 2: "\<forall>r\<in>set [length h]. r < length (h @ [?c])" by simp
  from image_pages_result [OF 1 2, of be] obtain pgs' h2 where
    r: "image_pages be (h @ [?c]) ?sel [length h] = (Inr pgs', h2)"
       "map (\<lambda>r. h2 ! r) pgs' = map (\<lambda>r. (h @ [?c]) ! r) [length h]
           @ map (\<lambda>e. captioned be ((h @ [?c]) ! img e) (label e)) ?sel"
    by blast
  have 3: "map (\<lambda>e. captioned be ((h @ [?c]) ! img e) (label e)) ?sel
         = map (\<lambda>e. captioned be (h ! img e) (label e)) ?sel"
    using same by simp
  have ne: "pgs' \<noteq> []" using r(2) by auto
  have sel: "?sel \<noteq> []" using assms(2) by auto
  have 4: "map (\<lambda>r. h2 ! r) (hd pgs' # tl pgs')
         = ?c # map (\<lambda>e. captioned be (h ! img e) (label e)) ?sel"
    using r(2) ne 3 by simp
  have "convert_to_pdf be md s h
      = (Done \<lparr>pages = ?c # map (\<lambda>e. captioned be (h ! img e) (label e)) ?sel, resolution = 300\<rparr>, h2)"
    using c r(1) sel 4 by (simp add: convert_to_pdf_def Let_def del: list.map)
  with w show ?thesis by simp
qed

theorem convert_to_pdf_pages_witness:
  "\<exists>h2. convert_to_pdf bitmap_backend sample_metadata three_entries [photo]
      = (Done \<lparr>pages = [cover_canvas bitmap_backend sample_metadata [''Server chassis first article''],
                         captioned bitmap_backend photo ''CPU-Front'',
                         captioned bitmap_backend photo ''PSU''],
               resolution = 300\<rparr>, h2)"
proof -
  have 1: "\<forall>e\<in>set (filter incl (draft three_entries)).
             img e < length [photo] \<and> mode ([photo] ! img e) = ''RGB'' \<and> CHR 0x0A \<notin> set (label e)"
    by (simp add: three_entries_def photo_def)
  have 2: "1 \<le> length (filter incl (draft three_entries))"
    by (simp add: three_entries_def)
  have 3: "wrap (description sample_metadata) 60 = Inr [''Server chassis first article'']"
    unfolding sample_metadata_def by code_simp
  from convert_to_pdf_pages [OF 1 2, of sample_metadata bitmap_backend]
  obtain lines doc h2 where
    d: "wrap (description sample_metadata) 60 = Inr lines"
       "convert_to_pdf bitmap_backend sample_metadata three_entries [photo] = (Done doc, h2)"
       "pages doc = cover_canvas bitmap_backend sample_metadata lines
          # map (\<lambda>e. captioned bitmap_backend ([photo] ! img e) (label e))
              (filter incl (draft three_entries))"
    by blast
  have l: "lines = [''Server chassis first article'']" using d(1) 3 by simp
  have r: "resolution doc = 300"
    using d(2) by (auto simp: convert_to_pdf_def Let_def split: if_splits sum.splits prod.splits)
  have "doc = \<lparr>pages = [cover_canvas bitmap_backend sample_metadata [''Server chassis first article''],
                        captioned bitmap_backend photo ''CPU-Front'',
                        captioned bitmap_backend photo ''PSU''], resolution = 300\<rparr>"
    using d(3) r l by (cases doc) (simp add: three_entries_def)
  with d(2) show ?thesis by blast
qed


end
